theory Spec2Isabelle
  imports Main "HOL-Library.Code_Target_Nat" "HOL-Library.Sublist"
begin

section \<open>Bytes and memory\<close>

text \<open>
  The reader works on raw bytes through \<^verbatim>\<open>const char *\<close> pointers. A byte is a
  \<^typ>\<open>char\<close>; the storage a cursor owns (the mapped file, or the vector of the
  buffered cursor) is a function from addresses to bytes, an address being an offset from
  the start of that storage. Every address can be read: the vectorised scanner loads 16
  bytes at a time and so reads past the end of the window, and whatever lies there is
  part of the memory the theorems quantify over.

  A member \<^verbatim>\<open>x_\<close> of a class is written \<open>x_M\<close> (MappedFileCursor), \<open>x_B\<close>
  (BufferedStreamCursor), \<open>x_F\<close> (FdStreamCursor) or \<open>x_R\<close> (CsvReader): a name
  cannot end in an underscore here. Sizes, counts and offsets are natural numbers; where
  the source subtracts, the remark at the definition says why the difference is not
  negative.
\<close>

type_synonym memory = "nat \<Rightarrow> char"

abbreviation NUL :: char where "NUL \<equiv> CHR 0x00"
abbreviation LF :: char where "LF \<equiv> CHR 0x0A"
abbreviation CR :: char where "CR \<equiv> CHR 0x0D"
abbreviation quote :: char where "quote \<equiv> CHR 0x22"
abbreviation comma :: char where "comma \<equiv> CHR 0x2C"

definition mem_of_list :: "char list \<Rightarrow> memory" where
  \<comment> \<open>a storage holding \<open>bs\<close> at address 0 and zero bytes behind it\<close>
  "mem_of_list bs = (\<lambda>a. if a < length bs then bs ! a else NUL)"

definition memcpy :: "memory \<Rightarrow> nat \<Rightarrow> nat \<Rightarrow> nat \<Rightarrow> memory" where
  \<comment> \<open>\<^verbatim>\<open>memcpy(dst, src, n)\<close>. Where the two ranges overlap C leaves the result open;
      here every source byte is read before any byte is written, as a forward copy to a
      lower address does.\<close>
  "memcpy m dst src n = (\<lambda>a. if dst \<le> a \<and> a < dst + n then m (src + (a - dst)) else m a)"

definition store_bytes :: "memory \<Rightarrow> nat \<Rightarrow> char list \<Rightarrow> memory" where
  "store_bytes m dst bs = (\<lambda>a. if dst \<le> a \<and> a < dst + length bs then bs ! (a - dst) else m a)"

definition bytes_at :: "memory \<Rightarrow> nat \<Rightarrow> nat \<Rightarrow> char list" where
  "bytes_at m a n = map (\<lambda>i. m (a + i)) [0..<n]"

definition holds_at :: "memory \<Rightarrow> nat \<Rightarrow> char list \<Rightarrow> bool" where
  \<comment> \<open>the bytes \<open>bs\<close> lie in memory from address \<open>a\<close> on\<close>
  "holds_at m a bs = (bytes_at m a (length bs) = bs)"

section \<open>The cursors\<close>

datatype fault = CellWriteOutOfBounds | TableWriteOutOfBounds | AssertionFailed

text \<open>
  A \<^typ>\<open>fault\<close> is not a result the C++ reports: \<open>CellWriteOutOfBounds\<close> stands for
  the store through \<^verbatim>\<open>cell\<close> once it points past \<^verbatim>\<open>cells[255]\<close>,
  \<open>TableWriteOutOfBounds\<close> for a store past \<^verbatim>\<open>charset_[255]\<close> (both undefined
  behaviour), \<open>AssertionFailed\<close> for a failing \<^verbatim>\<open>assert\<close>.
\<close>

subsection \<open>MappedFileCursor\<close>

record MappedFileCursor =
  map_M :: memory
  mapsize_M :: nat
  remain_M :: nat
  buf_M :: nat

definition MappedFileCursor_more :: "nat \<Rightarrow> MappedFileCursor \<Rightarrow> bool \<times> MappedFileCursor" where
  \<comment> \<open>\<open>shift\<close> is at most \<^verbatim>\<open>remain_\<close> after the first statement, so no difference is
      negative\<close>
  "MappedFileCursor_more shift0 c =
     (let shift = (if shift0 > remain_M c then remain_M c else shift0);
          c1 = c\<lparr>buf_M := buf_M c + (remain_M c - shift)\<rparr>;
          c2 = c1\<lparr>remain_M := remain_M c1 - (remain_M c1 - shift)\<rparr>
      in (remain_M c2 > 0, c2))"

definition MappedFileCursor_open :: "char list \<Rightarrow> MappedFileCursor" where
  \<comment> \<open>the cursor after a successful \<^verbatim>\<open>open\<close> of a file holding \<open>bs\<close>; the bytes
      behind the file are zero, as in the last page of a mapping\<close>
  "MappedFileCursor_open bs =
     \<lparr>map_M = mem_of_list bs, mapsize_M = length bs, remain_M = length bs, buf_M = 0\<rparr>"

subsection \<open>BufferedStreamCursor and FdStreamCursor\<close>

text \<open>
  The descriptor is the sequence of results the coming \<^verbatim>\<open>read(2)\<close> calls will
  deliver: a piece of data each, or an error; the empty sequence is end of file. A read
  of \<open>n\<close> bytes takes at most \<open>n\<close> bytes of the next piece and leaves the rest.

  \<open>buf_B\<close> is the memory from \<^verbatim>\<open>&buf_[0]\<close> on and \<open>buf_capacity\<close> is
  \<^verbatim>\<open>buf_.size()\<close>; the vector is created with 131072 zero bytes. A pointer into the
  vector is its offset from \<^verbatim>\<open>&buf_[0]\<close>, so \<^verbatim>\<open>buf()\<close> is 0.
\<close>

datatype read_result = Data "char list" | ReadError

definition sys_read :: "read_result list \<Rightarrow> nat \<Rightarrow> int \<times> char list \<times> read_result list" where
  "sys_read fd n =
     (case fd of
        [] \<Rightarrow> (0, [], [])
      | ReadError # rest \<Rightarrow> (- 1, [], rest)
      | Data bs # rest \<Rightarrow>
          if length bs \<le> n then (int (length bs), bs, rest)
          else (int n, take n bs, Data (drop n bs) # rest))"

record FdStreamCursor =
  buf_B :: memory
  buf_capacity :: nat
  size_B :: nat
  fd_F :: "read_result list"

definition FdStreamCursor_new :: "read_result list \<Rightarrow> FdStreamCursor" where
  "FdStreamCursor_new fd = \<lparr>buf_B = (\<lambda>_. NUL), buf_capacity = 131072, size_B = 0, fd_F = fd\<rparr>"

definition readmore :: "FdStreamCursor \<Rightarrow> int \<times> FdStreamCursor" where
  "readmore c =
     (case sys_read (fd_F c) (buf_capacity c - size_B c) of
        (rc, bs, rest) \<Rightarrow> (rc, c\<lparr>buf_B := store_bytes (buf_B c) (size_B c) bs, fd_F := rest\<rparr>))"

definition BufferedStreamCursor_more :: "nat \<Rightarrow> FdStreamCursor \<Rightarrow> fault + (bool \<times> FdStreamCursor)" where
  \<comment> \<open>\<^verbatim>\<open>assert(shift <= size_)\<close> comes first; behind it \<open>size_B c - shift\<close> is not
      negative. (With \<^verbatim>\<open>NDEBUG\<close> the assertion does not stop the program and the copy
      would read in front of the buffer; \<^verbatim>\<open>refill\<close> never passes such a shift.)\<close>
  "BufferedStreamCursor_more shift c =
     (if \<not> shift \<le> size_B c then Inl AssertionFailed
      else
        let c1 = c\<lparr>buf_B := memcpy (buf_B c) 0 (size_B c - shift) shift\<rparr>;
            c2 = c1\<lparr>size_B := shift\<rparr>
        in case readmore c2 of
             (rc, c3) \<Rightarrow>
               if rc = - 1 then Inr (False, c3)
               else let c4 = c3\<lparr>size_B := size_B c3 + nat rc\<rparr> in Inr (size_B c4 \<noteq> 0, c4))"

subsection \<open>StreamCursor: the virtual interface\<close>

datatype StreamCursor = Mapped MappedFileCursor | Fd FdStreamCursor

fun StreamCursor_buf :: "StreamCursor \<Rightarrow> nat" where
  "StreamCursor_buf (Mapped c) = buf_M c"
| "StreamCursor_buf (Fd c) = 0"

fun StreamCursor_size :: "StreamCursor \<Rightarrow> nat" where
  "StreamCursor_size (Mapped c) = remain_M c"
| "StreamCursor_size (Fd c) = size_B c"

fun StreamCursor_more :: "nat \<Rightarrow> StreamCursor \<Rightarrow> fault + (bool \<times> StreamCursor)" where
  "StreamCursor_more shift (Mapped c) =
     (case MappedFileCursor_more shift c of (rc, c') \<Rightarrow> Inr (rc, Mapped c'))"
| "StreamCursor_more shift (Fd c) =
     (case BufferedStreamCursor_more shift c of
        Inl f \<Rightarrow> Inl f
      | Inr (rc, c') \<Rightarrow> Inr (rc, Fd c'))"

fun StreamCursor_mem :: "StreamCursor \<Rightarrow> memory" where
  \<comment> \<open>the storage the pointers of this cursor point into\<close>
  "StreamCursor_mem (Mapped c) = map_M c"
| "StreamCursor_mem (Fd c) = buf_B c"

section \<open>Cells and rows\<close>

record CsvCell =
  ptr :: nat
  size_c :: nat

definition as_str :: "memory \<Rightarrow> CsvCell \<Rightarrow> char list" where
  "as_str m c = bytes_at m (ptr c) (size_c c)"

text \<open>
  \<^verbatim>\<open>strncmp\<close> of the C library, on two pointers given as the memory seen from them:
  at most \<open>n\<close> bytes are compared, and the comparison stops behind a NUL byte.
\<close>

fun strncmp :: "memory \<Rightarrow> memory \<Rightarrow> nat \<Rightarrow> int" where
  "strncmp s1 s2 0 = 0"
| "strncmp s1 s2 (Suc n) =
     (if s1 0 \<noteq> s2 0 then int (of_char (s1 0)) - int (of_char (s2 0))
      else if s1 0 = NUL then 0
      else strncmp (\<lambda>i. s1 (Suc i)) (\<lambda>i. s2 (Suc i)) n)"

definition c_str :: "char list \<Rightarrow> memory" where
  \<comment> \<open>a NUL-terminated argument string holding \<open>s\<close>\<close>
  "c_str s = mem_of_list s"

definition equals :: "memory \<Rightarrow> CsvCell \<Rightarrow> memory \<Rightarrow> bool" where
  "equals m c str = (0 = strncmp (\<lambda>i. m (ptr c + i)) str (size_c c))"

text \<open>
  \<^verbatim>\<open>cells\<close> is the array of 256 cells, a slot for each index below
  \<open>cells_capacity\<close>; a store at another index is not a store into the array (see
  \<open>write_cell\<close>). The constructor leaves the cells as they are; here they start as
  empty cells at address 0.
\<close>

record CsvCursor =
  cells :: "nat \<Rightarrow> CsvCell"
  count :: nat

definition CsvCursor_new :: CsvCursor where
  "CsvCursor_new = \<lparr>cells = (\<lambda>_. \<lparr>ptr = 0, size_c = 0\<rparr>), count = 0\<rparr>"

definition cells_capacity :: nat where
  "cells_capacity = 256"

definition write_cell :: "CsvCursor \<Rightarrow> nat \<Rightarrow> CsvCell \<Rightarrow> fault + CsvCursor" where
  \<comment> \<open>the two stores through \<^verbatim>\<open>cell\<close>, which points at \<^verbatim>\<open>cells[i]\<close>\<close>
  "write_cell row i c =
     (if i < cells_capacity then Inr (row\<lparr>cells := (cells row)(i := c)\<rparr>)
      else Inl CellWriteOutOfBounds)"

definition row_strs :: "memory \<Rightarrow> CsvCursor \<Rightarrow> char list list" where
  \<comment> \<open>the byte contents of the cells of the current row\<close>
  "row_strs m row = map (\<lambda>i. as_str m (cells row i)) [0..<count row]"

section \<open>The scanner\<close>

text \<open>
  \<^verbatim>\<open>_mm_cmpistri(a, b, 0)\<close>: unsigned bytes, equal-any, least significant index. Both
  operands are strings of implicit length: a vector ends in front of its first NUL byte.
  The result is the index of the first valid byte of \<open>b\<close> that is a valid byte of \<open>a\<close>,
  and 16 when there is none.
\<close>

definition implicit_str :: "char list \<Rightarrow> char list" where
  "implicit_str v = takeWhile (\<lambda>c. c \<noteq> NUL) v"

definition mm_cmpistri :: "char list \<Rightarrow> char list \<Rightarrow> nat" where
  "mm_cmpistri a b =
     (let sa = implicit_str a; sb = implicit_str b;
          n = length (takeWhile (\<lambda>c. c \<notin> set sa) sb)
      in if n < length sb then n else 16)"

definition mm_loadu_si128 :: "memory \<Rightarrow> nat \<Rightarrow> char list" where
  "mm_loadu_si128 m p = bytes_at m p 16"

definition v16qi :: "char list \<Rightarrow> char list" where
  \<comment> \<open>\<^verbatim>\<open>(__v16qi) {args...}\<close>: the elements not given are zero\<close>
  "v16qi args = take 16 (args @ replicate 16 NUL)"

definition strcspn16 :: "memory \<Rightarrow> nat \<Rightarrow> char list \<Rightarrow> nat" where
  "strcspn16 m buf args = mm_cmpistri (v16qi args) (mm_loadu_si128 m buf)"

text \<open>The SSE4.2 \<^verbatim>\<open>StringSpanner\<close>: the constructor and \<^verbatim>\<open>operator()\<close>.\<close>

definition StringSpanner_new :: "char list \<Rightarrow> char list" where
  "StringSpanner_new charset = v16qi (take 16 (implicit_str charset))"

definition StringSpanner_call :: "char list \<Rightarrow> memory \<Rightarrow> nat \<Rightarrow> nat" where
  "StringSpanner_call v m buf = mm_cmpistri v (mm_loadu_si128 m buf)"

text \<open>
  The portable \<^verbatim>\<open>StringSpanner\<close>. The table \<^verbatim>\<open>charset_\<close> has 256 entries. The
  constructor indexes it with \<^verbatim>\<open>(unsigned) charset[i]\<close>, \<^verbatim>\<open>char\<close> being signed:
  a byte from 0x80 on is sign-extended and indexes far behind the table.
  \<^verbatim>\<open>operator()\<close> has no bound: it runs until it meets a byte whose entry is 0.
\<close>

definition unsigned_of_char :: "char \<Rightarrow> nat" where
  "unsigned_of_char c = (if of_char c < (128::nat) then of_char c else 2 ^ 32 - 256 + of_char c)"

fun charset_fill :: "char list \<Rightarrow> nat \<Rightarrow> nat list \<Rightarrow> fault + nat list" where
  \<comment> \<open>the loop of the constructor; the argument string ends at its first NUL\<close>
  "charset_fill [] v t = Inr t"
| "charset_fill (ch # rest) v t =
     (if ch = NUL then Inr t
      else if unsigned_of_char ch < length t
        then charset_fill rest v (t[unsigned_of_char ch := v])
      else Inl TableWriteOutOfBounds)"

definition FallbackStringSpanner :: "char list \<Rightarrow> bool \<Rightarrow> fault + nat list" where
  "FallbackStringSpanner charset c =
     (case charset_fill charset (if c then 1 else 0) (replicate 256 (if c then 0 else 1)) of
        Inl f \<Rightarrow> Inl f
      | Inr t \<Rightarrow> Inr (t[0 := 0]))"

partial_function (option) spanner_loop :: "nat list \<Rightarrow> memory \<Rightarrow> nat \<Rightarrow> nat \<Rightarrow> nat option" where
  "spanner_loop charset m s p =
     (let t0 = charset ! of_char (m p);
          t1 = charset ! of_char (m (p + 1));
          t2 = charset ! of_char (m (p + 2));
          t3 = charset ! of_char (m (p + 3))
      in if 4 \<noteq> t0 + t1 + t2 + t3 then
           (if t0 = 0 then Some (p - s)
            else if t1 = 0 then Some ((p + 1) - s)
            else if t2 = 0 then Some ((p + 2) - s)
            else Some ((p + 3) - s))
         else spanner_loop charset m s (p + 4))"

declare spanner_loop.simps [code]

definition FallbackStringSpanner_call :: "nat list \<Rightarrow> memory \<Rightarrow> nat \<Rightarrow> nat option" where
  \<comment> \<open>\<^verbatim>\<open>operator()\<close>; \<open>None\<close> when the loop never returns\<close>
  "FallbackStringSpanner_call charset m s = spanner_loop charset m s s"

definition first_match :: "char set \<Rightarrow> char list \<Rightarrow> nat option" where
  \<comment> \<open>the index \<^verbatim>\<open>_mm_cmpistri\<close> finds in a string for a set without NUL\<close>
  "first_match S cs =
     (let sb = takeWhile (\<lambda>c. c \<noteq> NUL) cs; n = length (takeWhile (\<lambda>c. c \<notin> S) sb)
      in if n < length sb then Some n else None)"

section \<open>CsvReader\<close>

datatype label = cell_start | in_quoted_cell | in_unquoted_cell | in_escape_or_end_of_cell

text \<open>
  The body of \<^verbatim>\<open>try_parse\<close> from a label on. The locals are the scan position
  \<open>p\<close>, the start \<open>cstart\<close> of the current cell (the local \<^verbatim>\<open>cell_start\<close>, which
  shares its name with a label) and the index \<open>cell\<close> of the slot that \<^verbatim>\<open>cell\<close>
  points at. The result \<open>Some p'\<close> is \<^verbatim>\<open>return true\<close> after \<^verbatim>\<open>p_ = p'\<close>,
  \<open>None\<close> is the \<^verbatim>\<open>break\<close> of \<^verbatim>\<open>PREAMBLE\<close>, behind which the loop ends and
  \<^verbatim>\<open>try_parse\<close> returns false.

  The scan position never moves back and \<open>cstart\<close> is set to the scan position, so
  \<open>p - cstart\<close> is not negative; the label \<open>in_escape_or_end_of_cell\<close> is entered
  only from \<open>in_quoted_cell\<close> with \<open>p\<close> advanced by at least one, so
  \<open>p - cstart - 1\<close> is not negative either.
\<close>

function parse_from ::
  "memory \<Rightarrow> nat \<Rightarrow> label \<Rightarrow> nat \<Rightarrow> nat \<Rightarrow> nat \<Rightarrow> CsvCursor \<Rightarrow> fault + (nat option \<times> CsvCursor)"
where
  "parse_from m endp cell_start p cstart cell row =
     (if p \<ge> endp then Inr (None, row)
      else if m p = CR then parse_from m endp cell_start (p + 1) cstart cell row
      else if m p = quote then parse_from m endp in_quoted_cell (p + 1) (p + 1) cell row
      else parse_from m endp in_unquoted_cell p p cell row)"
| "parse_from m endp in_quoted_cell p cstart cell row =
     (if p \<ge> endp then Inr (None, row)
      else if strcspn16 m p [quote] = 16
        then parse_from m endp in_quoted_cell (p + 16) cstart cell row
      else parse_from m endp in_escape_or_end_of_cell (p + strcspn16 m p [quote] + 1) cstart cell row)"
| "parse_from m endp in_unquoted_cell p cstart cell row =
     (if p \<ge> endp then Inr (None, row)
      else if strcspn16 m p [comma, CR, LF] \<noteq> 0
        then parse_from m endp in_unquoted_cell (p + strcspn16 m p [comma, CR, LF]) cstart cell row
      else
        (case write_cell row cell \<lparr>ptr = cstart, size_c = p - cstart\<rparr> of
           Inl f \<Rightarrow> Inl f
         | Inr row1 \<Rightarrow>
             if m p = LF then Inr (Some (p + 1), row1\<lparr>count := count row1 + 1\<rparr>)
             else parse_from m endp cell_start (p + 1) cstart (cell + 1)
                    (row1\<lparr>count := count row1 + 1\<rparr>)))"
| "parse_from m endp in_escape_or_end_of_cell p cstart cell row =
     (if p \<ge> endp then Inr (None, row)
      else if m p = comma then
        (case write_cell row cell \<lparr>ptr = cstart, size_c = p - cstart - 1\<rparr> of
           Inl f \<Rightarrow> Inl f
         | Inr row1 \<Rightarrow>
             parse_from m endp cell_start (p + 1) cstart (cell + 1)
               (row1\<lparr>count := count row1 + 1\<rparr>))
      else if m p = LF then
        (case write_cell row cell \<lparr>ptr = cstart, size_c = p - cstart - 1\<rparr> of
           Inl f \<Rightarrow> Inl f
         | Inr row1 \<Rightarrow> Inr (Some (p + 1), row1\<lparr>count := count row1 + 1\<rparr>))
      else parse_from m endp in_quoted_cell (p + 1) cstart cell row)"
  by pat_completeness auto
termination
  by (relation "measure (\<lambda>(m, endp, l, p, cstart, cell, row).
        2 * (endp - p) + (if l = cell_start then 1 else 0))") auto

declare parse_from.simps [simp del]

record CsvReader =
  stream_R :: StreamCursor
  row_R :: CsvCursor
  endp_R :: nat
  p_R :: nat

definition CsvReader_new :: "StreamCursor \<Rightarrow> CsvReader" where
  "CsvReader_new stream =
     \<lparr>stream_R = stream, row_R = CsvCursor_new,
      endp_R = StreamCursor_buf stream + StreamCursor_size stream,
      p_R = StreamCursor_buf stream\<rparr>"

definition try_parse :: "CsvReader \<Rightarrow> fault + (bool \<times> CsvReader)" where
  \<comment> \<open>the local \<^verbatim>\<open>cell_start\<close> is not initialised; the label \<open>cell_start\<close> sets it
      before it is read (lemma \<open>cell_start_ignores_cstart\<close>), and here it starts as
      \<^verbatim>\<open>p_\<close>\<close>
  "try_parse rd =
     (case parse_from (StreamCursor_mem (stream_R rd)) (endp_R rd) cell_start (p_R rd) (p_R rd) 0
             ((row_R rd)\<lparr>count := 0\<rparr>) of
        Inl f \<Rightarrow> Inl f
      | Inr (None, row) \<Rightarrow> Inr (False, rd\<lparr>row_R := row\<rparr>)
      | Inr (Some p', row) \<Rightarrow> Inr (True, rd\<lparr>row_R := row, p_R := p'\<rparr>))"

definition refill_shift :: "CsvReader \<Rightarrow> nat" where
  \<comment> \<open>the local \<^verbatim>\<open>shift\<close> of \<^verbatim>\<open>refill\<close>. The window of the reader is the window
      of its cursor (\<open>window_ok\<close>, which the constructor establishes and every
      operation keeps), so \<^verbatim>\<open>endp_ - p_\<close> is at most \<^verbatim>\<open>size()\<close>.\<close>
  "refill_shift rd =
     (if p_R rd < endp_R rd then StreamCursor_size (stream_R rd) - (endp_R rd - p_R rd) else 0)"

definition refill :: "CsvReader \<Rightarrow> fault + (bool \<times> CsvReader)" where
  "refill rd =
     (case StreamCursor_more (refill_shift rd) (stream_R rd) of
        Inl f \<Rightarrow> Inl f
      | Inr (rc, s) \<Rightarrow>
          Inr (rc, rd\<lparr>stream_R := s, p_R := StreamCursor_buf s,
                     endp_R := StreamCursor_buf s + StreamCursor_size s\<rparr>))"

definition read_row :: "CsvReader \<Rightarrow> fault + (bool \<times> CsvReader)" where
  "read_row rd =
     (case try_parse rd of
        Inl f \<Rightarrow> Inl f
      | Inr (True, rd1) \<Rightarrow> Inr (True, rd1)
      | Inr (False, rd1) \<Rightarrow>
          (case refill rd1 of
             Inl f \<Rightarrow> Inl f
           | Inr (False, rd2) \<Rightarrow> Inr (False, rd2)
           | Inr (True, rd2) \<Rightarrow> try_parse rd2))"

definition row :: "CsvReader \<Rightarrow> CsvCursor" where
  "row rd = row_R rd"

definition window_ok :: "CsvReader \<Rightarrow> bool" where
  \<comment> \<open>the positions of the reader lie in the window of its cursor\<close>
  "window_ok rd \<longleftrightarrow>
     StreamCursor_buf (stream_R rd) \<le> p_R rd \<and> p_R rd \<le> endp_R rd \<and>
     endp_R rd = StreamCursor_buf (stream_R rd) + StreamCursor_size (stream_R rd)"

section \<open>Observing a reader\<close>

definition cell_strs :: "CsvReader \<Rightarrow> char list list" where
  \<comment> \<open>\<^verbatim>\<open>as_str()\<close> of each cell of \<^verbatim>\<open>row()\<close>, read from the cursor's storage\<close>
  "cell_strs rd = row_strs (StreamCursor_mem (stream_R rd)) (row rd)"

definition returned :: "fault + (bool \<times> CsvReader) \<Rightarrow> fault + bool" where
  \<comment> \<open>the \<^verbatim>\<open>bool\<close> a call hands to its caller\<close>
  "returned res = (case res of Inl f \<Rightarrow> Inl f | Inr (b, rd) \<Rightarrow> Inr b)"

definition outcome :: "fault + (bool \<times> CsvReader) \<Rightarrow> fault + (bool \<times> char list list)" where
  \<comment> \<open>the returned \<^verbatim>\<open>bool\<close> and the bytes of the cells of \<^verbatim>\<open>row()\<close> after the call\<close>
  "outcome res = (case res of Inl f \<Rightarrow> Inl f | Inr (b, rd) \<Rightarrow> Inr (b, cell_strs rd))"

fun read_rows :: "nat \<Rightarrow> CsvReader \<Rightarrow> (fault + (bool \<times> char list list)) list" where
  \<comment> \<open>\<open>n\<close> calls of \<^verbatim>\<open>read_row\<close> in sequence, the row copied out after each\<close>
  "read_rows 0 rd = []"
| "read_rows (Suc n) rd =
     (case read_row rd of
        Inl f \<Rightarrow> [Inl f]
      | Inr (b, rd') \<Rightarrow> Inr (b, cell_strs rd') # read_rows n rd')"

definition fd_reader :: "char list list \<Rightarrow> CsvReader" where
  \<comment> \<open>a reader on a descriptor that delivers the given pieces, one for each read\<close>
  "fd_reader pieces = CsvReader_new (Fd (FdStreamCursor_new (map Data pieces)))"

definition mapped_reader :: "char list \<Rightarrow> CsvReader" where
  \<comment> \<open>a reader on the mapped file holding \<open>bs\<close>\<close>
  "mapped_reader bs = CsvReader_new (Mapped (MappedFileCursor_open bs))"

section \<open>Rows as the specification describes them\<close>

fun join_comma :: "char list list \<Rightarrow> char list" where
  "join_comma [] = []"
| "join_comma [f] = f"
| "join_comma (f # g # fs) = f @ comma # join_comma (g # fs)"

fun join_quotes :: "char list list \<Rightarrow> char list" where
  \<comment> \<open>the content of a quoted field: pieces without quote, a doubled quote between them\<close>
  "join_quotes [] = []"
| "join_quotes [s] = s"
| "join_quotes (s # t # ss) = s @ quote # quote # join_quotes (t # ss)"

definition quote_free :: "char list \<Rightarrow> bool" where
  "quote_free s = (\<forall>c\<in>set s. c \<notin> {quote, NUL})"

definition leading_non_stop :: "memory \<Rightarrow> nat \<Rightarrow> char list \<Rightarrow> nat \<Rightarrow> nat" where
  \<comment> \<open>of the \<open>w\<close> bytes from \<open>p\<close> on, the number of leading bytes not in the stop set\<close>
  "leading_non_stop m p stops w = length (takeWhile (\<lambda>c. c \<notin> set stops) (bytes_at m p w))"

definition unquoted_field :: "char list \<Rightarrow> bool" where
  \<comment> \<open>a field without comma, quote, CR or LF\<close>
  "unquoted_field f = (\<forall>c\<in>set f. c \<notin> {comma, quote, CR, LF})"

definition plain_field :: "char list \<Rightarrow> bool" where
  \<comment> \<open>an unquoted field that has no NUL byte either\<close>
  "plain_field f = (\<forall>c\<in>set f. c \<notin> {comma, quote, CR, LF, NUL})"

section \<open>The scanner: what \<^verbatim>\<open>strcspn16\<close> returns\<close>

lemma implicit_str_v16qi:
  assumes "NUL \<notin> set args" "length args \<le> 16"
  shows "implicit_str (v16qi args) = args"
proof -
  have "v16qi args = args @ replicate (16 - length args) NUL"
    using assms(2) by (simp add: v16qi_def)
  then show ?thesis
    using assms(1) by (simp add: implicit_str_def takeWhile_append takeWhile_eq_all_conv[THEN iffD2])
qed

lemma first_match_Nil [simp]: "first_match S [] = None"
  by (simp add: first_match_def)

lemma first_match_Cons:
  "NUL \<notin> S \<Longrightarrow> first_match S (c # cs) =
     (if c \<in> S then Some 0 else if c = NUL then None else map_option Suc (first_match S cs))"
  by (auto simp: first_match_def Let_def)

lemma first_match_Some_iff:
  assumes "NUL \<notin> S"
  shows "first_match S cs = Some n \<longleftrightarrow>
     n < length cs \<and> cs ! n \<in> S \<and> (\<forall>i<n. cs ! i \<notin> S \<and> cs ! i \<noteq> NUL)"
proof (induction cs arbitrary: n)
  case Nil
  show ?case by simp
next
  case (Cons c cs)
  show ?case
  proof (cases n)
    case 0
    then show ?thesis using assms by (auto simp: first_match_Cons)
  next
    case (Suc k)
    have "(\<forall>i<Suc k. (c # cs) ! i \<notin> S \<and> (c # cs) ! i \<noteq> NUL) \<longleftrightarrow>
          c \<notin> S \<and> c \<noteq> NUL \<and> (\<forall>i<k. cs ! i \<notin> S \<and> cs ! i \<noteq> NUL)"
      by (auto simp: less_Suc_eq_0_disj)
    then show ?thesis
      using assms Suc Cons.IH[of k] by (auto simp: first_match_Cons)
  qed
qed

lemma strcspn16_first_match:
  assumes "NUL \<notin> set stops" "length stops \<le> 16"
  shows "strcspn16 m p stops =
     (case first_match (set stops) (bytes_at m p 16) of None \<Rightarrow> 16 | Some n \<Rightarrow> n)"
proof -
  have "mm_cmpistri (v16qi stops) cs =
     (case first_match (set stops) cs of None \<Rightarrow> 16 | Some n \<Rightarrow> n)" for cs
    unfolding mm_cmpistri_def implicit_str_v16qi[OF assms] first_match_def
    by (simp add: implicit_str_def Let_def)
  then show ?thesis
    by (simp add: strcspn16_def mm_loadu_si128_def)
qed

lemma length_bytes_at [simp]: "length (bytes_at m a n) = n"
  by (simp add: bytes_at_def)

lemma nth_bytes_at [simp]: "i < n \<Longrightarrow> bytes_at m a n ! i = m (a + i)"
  by (simp add: bytes_at_def)

lemma strcspn16_eq_iff:
  assumes "NUL \<notin> set stops" "length stops \<le> 16"
  shows "strcspn16 m p stops = r \<longleftrightarrow>
     (r < 16 \<and> m (p + r) \<in> set stops \<and> (\<forall>i<r. m (p + i) \<notin> set stops \<and> m (p + i) \<noteq> NUL)) \<or>
     (r = 16 \<and> \<not> (\<exists>k<16. m (p + k) \<in> set stops \<and>
          (\<forall>i<k. m (p + i) \<notin> set stops \<and> m (p + i) \<noteq> NUL)))"
proof (cases "first_match (set stops) (bytes_at m p 16)")
  case None
  have "\<not> (\<exists>k<16. m (p + k) \<in> set stops \<and> (\<forall>i<k. m (p + i) \<notin> set stops \<and> m (p + i) \<noteq> NUL))"
  proof
    assume "\<exists>k<16. m (p + k) \<in> set stops \<and> (\<forall>i<k. m (p + i) \<notin> set stops \<and> m (p + i) \<noteq> NUL)"
    then obtain k where "k < 16" "m (p + k) \<in> set stops"
      "\<forall>i<k. m (p + i) \<notin> set stops \<and> m (p + i) \<noteq> NUL" by blast
    then have "first_match (set stops) (bytes_at m p 16) = Some k"
      using first_match_Some_iff[OF assms(1), of "bytes_at m p 16" k] by simp
    with None show False by simp
  qed
  moreover have "strcspn16 m p stops = 16"
    using None by (simp add: strcspn16_first_match[OF assms])
  ultimately show ?thesis
    by auto
next
  case (Some n)
  then have n: "n < 16" "m (p + n) \<in> set stops"
    "\<forall>i<n. m (p + i) \<notin> set stops \<and> m (p + i) \<noteq> NUL"
    using first_match_Some_iff[OF assms(1), of "bytes_at m p 16" n] by auto
  have uniq: "k = n" if "k < 16" "m (p + k) \<in> set stops"
    "\<forall>i<k. m (p + i) \<notin> set stops \<and> m (p + i) \<noteq> NUL" for k
  proof (rule ccontr)
    assume "k \<noteq> n"
    then consider "k < n" | "n < k" by linarith
    then show False
    proof cases
      case 1
      then show ?thesis using n(3) that(2) by blast
    next
      case 2
      then show ?thesis using that(3) n(2) by blast
    qed
  qed
  have "strcspn16 m p stops = n"
    using Some by (simp add: strcspn16_first_match[OF assms])
  then show ?thesis
    using n uniq by blast
qed

section \<open>The portable scanner\<close>

lemma spanner_loop_finds:
  assumes tbl: "\<And>c. t ! of_char c \<le> (1::nat)"
    and z: "t ! of_char (m (p + k)) = 0"
    and nz: "\<forall>i<k. t ! of_char (m (p + i)) \<noteq> 0"
    and sp: "s \<le> p"
  shows "spanner_loop t m s p = Some (p + k - s)"
  using z nz sp
proof (induction k arbitrary: p rule: less_induct)
  case (less k)
  have one: "t ! of_char (m (p + i)) = 1" if "i < k" for i
    using less.prems(2) tbl[of "m (p + i)"] that by (auto simp: le_Suc_eq)
  note bnd = tbl[of "m p"] tbl[of "m (p + 1)"] tbl[of "m (p + 2)"] tbl[of "m (p + 3)"]
  show ?case
  proof (cases "k < 4")
    case True
    then consider "k = 0" | "k = 1" | "k = 2" | "k = 3" by linarith
    then show ?thesis
    proof cases
      case 1
      then show ?thesis
        using less.prems(1) bnd by (subst spanner_loop.simps) (simp add: Let_def)
    next
      case 2
      then show ?thesis
        using less.prems(1) one[of 0] bnd
        by (subst spanner_loop.simps) (simp add: Let_def)
    next
      case 3
      then show ?thesis
        using less.prems(1) one[of 0] one[of 1] bnd
        by (subst spanner_loop.simps) (simp add: Let_def)
    next
      case 4
      then show ?thesis
        using less.prems(1) one[of 0] one[of 1] one[of 2] bnd
        by (subst spanner_loop.simps) (simp add: Let_def)
    qed
  next
    case False
    have "spanner_loop t m s p = spanner_loop t m s (p + 4)"
      using False one[of 0] one[of 1] one[of 2] one[of 3]
      by (subst spanner_loop.simps) (simp add: Let_def)
    also have "\<dots> = Some (p + 4 + (k - 4) - s)"
    proof (rule less.IH)
      show "k - 4 < k" using False by simp
      show "t ! of_char (m (p + 4 + (k - 4))) = 0" using less.prems(1) False by simp
      show "\<forall>i<k - 4. t ! of_char (m (p + 4 + i)) \<noteq> 0"
        using less.prems(2) by (auto simp: add.assoc)
      show "s \<le> p + 4" using less.prems(3) by simp
    qed
    finally show ?thesis using False by simp
  qed
qed

lemma charset_fill_Inr:
  assumes "charset_fill cs v t = Inr t'" "length t = 256"
  shows "length t' = 256 \<and>
         (\<forall>c. t' ! of_char c = (if c \<in> set (implicit_str cs) then v else t ! of_char c))"
  using assms
proof (induction cs arbitrary: t)
  case Nil
  then show ?case by (simp add: implicit_str_def)
next
  case (Cons ch cs)
  show ?case
  proof (cases "ch = NUL")
    case True
    then show ?thesis using Cons.prems by (simp add: implicit_str_def)
  next
    case False
    then have lt: "unsigned_of_char ch < 256"
      and rest: "charset_fill cs v (t[unsigned_of_char ch := v]) = Inr t'"
      using Cons.prems by (auto split: if_splits)
    have ch: "unsigned_of_char ch = of_char ch" "of_char ch < (128::nat)"
      using lt by (auto simp: unsigned_of_char_def split: if_splits)
    note IH = Cons.IH[OF rest, simplified, OF Cons.prems(2)]
    have upd: "(t[unsigned_of_char ch := v]) ! of_char c = (if c = ch then v else t ! of_char c)" for c
      using Cons.prems(2) ch by (auto simp: nth_list_update)
    show ?thesis
      using IH False upd by (auto simp: implicit_str_def)
  qed
qed

lemma FallbackStringSpanner_table:
  assumes "FallbackStringSpanner stops False = Inr t"
  shows "t ! of_char c = (if c \<in> set (implicit_str stops) \<or> c = NUL then 0 else 1)"
proof -
  obtain t0 where t0: "charset_fill stops 0 (replicate 256 1) = Inr t0" and t: "t = t0[0 := 0]"
    using assms by (auto simp: FallbackStringSpanner_def split: sum.splits)
  have f: "length t0 = 256"
    "\<And>c. t0 ! of_char c = (if c \<in> set (implicit_str stops) then 0 else replicate 256 1 ! of_char c)"
    using charset_fill_Inr[OF t0] by simp_all
  have r: "replicate 256 (1::nat) ! of_char c = 1" for c :: char
    by (rule nth_replicate) simp
  have z: "of_char c = (0::nat) \<longleftrightarrow> c = NUL"
    using of_char_eq_iff[of c NUL, where ?'a = nat] by simp
  show ?thesis
    unfolding t using f r z by (auto simp: nth_list_update)
qed

section \<open>Bytes in memory\<close>

lemma holds_at_Nil [simp]: "holds_at m a []"
  by (simp add: holds_at_def bytes_at_def)

lemma holds_at_nth: "holds_at m a bs \<longleftrightarrow> (\<forall>i<length bs. m (a + i) = bs ! i)"
  by (auto simp: holds_at_def list_eq_iff_nth_eq)

lemma holds_at_append:
  "holds_at m a (xs @ ys) \<longleftrightarrow> holds_at m a xs \<and> holds_at m (a + length xs) ys"
proof
  assume h: "holds_at m a (xs @ ys)"
  have "m (a + i) = xs ! i" if "i < length xs" for i
    using h that by (auto simp: holds_at_nth nth_append dest: spec[of _ i])
  moreover have "m (a + length xs + i) = ys ! i" if "i < length ys" for i
    using h that by (auto simp: holds_at_nth nth_append add.assoc dest: spec[of _ "length xs + i"])
  ultimately show "holds_at m a xs \<and> holds_at m (a + length xs) ys"
    by (simp add: holds_at_nth)
next
  assume h: "holds_at m a xs \<and> holds_at m (a + length xs) ys"
  show "holds_at m a (xs @ ys)"
    unfolding holds_at_nth
  proof (intro allI impI)
    fix i assume "i < length (xs @ ys)"
    show "m (a + i) = (xs @ ys) ! i"
    proof (cases "i < length xs")
      case True
      then show ?thesis using h by (simp add: holds_at_nth nth_append)
    next
      case False
      then have "i - length xs < length ys" using \<open>i < length (xs @ ys)\<close> by simp
      then have "m (a + length xs + (i - length xs)) = ys ! (i - length xs)"
        using h by (simp add: holds_at_nth)
      then show ?thesis using False by (simp add: nth_append)
    qed
  qed
qed

lemma holds_at_Cons: "holds_at m a (x # xs) \<longleftrightarrow> m a = x \<and> holds_at m (Suc a) xs"
  using holds_at_append[of m a "[x]" xs] by (simp add: holds_at_nth)


section \<open>What \<^verbatim>\<open>more\<close> retains\<close>

lemma BufferedStreamCursor_more_keeps_tail:
  assumes "BufferedStreamCursor_more shift c = Inr (b, c')"
  shows "bytes_at (buf_B c') 0 shift = bytes_at (buf_B c) (size_B c - shift) shift"
proof -
  have le: "shift \<le> size_B c"
    using assms by (auto simp: BufferedStreamCursor_more_def split: if_splits)
  obtain rc bs rest where sr: "sys_read (fd_F c) (buf_capacity c - shift) = (rc, bs, rest)"
    by (metis prod_cases3)
  have "buf_B c' = store_bytes (memcpy (buf_B c) 0 (size_B c - shift) shift) shift bs"
    using assms le sr
    by (auto simp: BufferedStreamCursor_more_def readmore_def Let_def split: if_splits)
  then show ?thesis
    by (auto simp: bytes_at_def store_bytes_def memcpy_def)
qed

lemma MappedFileCursor_more_keeps_tail:
  assumes "shift \<le> remain_M c"
  shows "buf_M (snd (MappedFileCursor_more shift c)) = buf_M c + remain_M c - shift \<and>
         remain_M (snd (MappedFileCursor_more shift c)) = shift \<and>
         map_M (snd (MappedFileCursor_more shift c)) = map_M c"
  using assms by (simp add: MappedFileCursor_more_def Let_def)

section \<open>Unquoted cells\<close>

lemma stops3: "NUL \<notin> set [comma, CR, LF]" "length [comma, CR, LF] \<le> 16"
  by simp_all

lemma unquoted_skip:
  assumes "\<forall>i<k. m (p + i) \<notin> {comma, CR, LF, NUL}" "m (p + k) \<in> {comma, CR, LF}" "p + k < e"
  shows "parse_from m e in_unquoted_cell p cs cell r =
         parse_from m e in_unquoted_cell (p + k) cs cell r"
  using assms
proof (induction k arbitrary: p rule: less_induct)
  case (less k)
  show ?case
  proof (cases "k = 0")
    case True
    then show ?thesis by simp
  next
    case False
    define rc where "rc = strcspn16 m p [comma, CR, LF]"
    have rc: "rc = min k 16"
    proof (cases "k < 16")
      case True
      have "strcspn16 m p [comma, CR, LF] = k"
        unfolding strcspn16_eq_iff[OF stops3] using True less.prems by auto
      then show ?thesis using True by (simp add: rc_def)
    next
      case F: False
      have "strcspn16 m p [comma, CR, LF] = 16"
        unfolding strcspn16_eq_iff[OF stops3] using F less.prems by auto
      then show ?thesis using F by (simp add: rc_def)
    qed
    have step: "parse_from m e in_unquoted_cell p cs cell r =
                parse_from m e in_unquoted_cell (p + rc) cs cell r"
      using False rc less.prems(3)
      by (subst parse_from.simps) (simp add: rc_def[symmetric])
    have "parse_from m e in_unquoted_cell (p + rc) cs cell r =
          parse_from m e in_unquoted_cell (p + rc + (k - rc)) cs cell r"
    proof (rule less.IH)
      show "k - rc < k" using False rc by simp
      show "\<forall>i<k - rc. m (p + rc + i) \<notin> {comma, CR, LF, NUL}"
        using less.prems(1) rc by (auto simp: add.assoc)
      show "m (p + rc + (k - rc)) \<in> {comma, CR, LF}"
        using less.prems(2) rc by simp
      show "p + rc + (k - rc) < e"
        using less.prems(3) rc by simp
    qed
    with step show ?thesis using rc by simp
  qed
qed

lemma unquoted_close:
  assumes "m p \<in> {comma, CR, LF}" "p < e"
  shows "parse_from m e in_unquoted_cell p cs cell r =
     (case write_cell r cell \<lparr>ptr = cs, size_c = p - cs\<rparr> of
        Inl f \<Rightarrow> Inl f
      | Inr row1 \<Rightarrow>
          if m p = LF then Inr (Some (p + 1), row1\<lparr>count := count row1 + 1\<rparr>)
          else parse_from m e cell_start (p + 1) cs (cell + 1) (row1\<lparr>count := count row1 + 1\<rparr>))"
proof -
  have "strcspn16 m p [comma, CR, LF] = 0"
    unfolding strcspn16_eq_iff[OF stops3] using assms(1) by auto
  then show ?thesis
    using assms(2) by (subst parse_from.simps) simp
qed

lemma field_step:
  assumes f: "plain_field f" and t: "t = comma \<or> t = LF"
    and mem: "holds_at m p (f @ [t])" and e: "p + length f < e"
  shows "parse_from m e cell_start p cs cell r =
     (case write_cell r cell \<lparr>ptr = p, size_c = length f\<rparr> of
        Inl x \<Rightarrow> Inl x
      | Inr r1 \<Rightarrow>
          if t = LF then Inr (Some (p + length f + 1), r1\<lparr>count := count r1 + 1\<rparr>)
          else parse_from m e cell_start (p + length f + 1) p (cell + 1)
                 (r1\<lparr>count := count r1 + 1\<rparr>))"
proof -
  have bytes: "\<forall>i<length f. m (p + i) = f ! i" and tm: "m (p + length f) = t"
    using mem unfolding holds_at_append by (simp_all add: holds_at_nth)
  have clean: "\<forall>i<length f. m (p + i) \<notin> {comma, quote, CR, LF, NUL}"
    using f bytes by (simp add: plain_field_def)
  have first: "m p \<noteq> CR \<and> m p \<noteq> quote"
  proof (cases f)
    case Nil
    then show ?thesis using tm t by auto
  next
    case (Cons c cs')
    then show ?thesis using clean by fastforce
  qed
  have "parse_from m e cell_start p cs cell r = parse_from m e in_unquoted_cell p p cell r"
    using first e by (subst parse_from.simps) simp
  also have "\<dots> = parse_from m e in_unquoted_cell (p + length f) p cell r"
    by (rule unquoted_skip) (use clean tm t e in auto)
  also have "\<dots> =
     (case write_cell r cell \<lparr>ptr = p, size_c = length f\<rparr> of
        Inl x \<Rightarrow> Inl x
      | Inr r1 \<Rightarrow>
          if t = LF then Inr (Some (p + length f + 1), r1\<lparr>count := count r1 + 1\<rparr>)
          else parse_from m e cell_start (p + length f + 1) p (cell + 1)
                 (r1\<lparr>count := count r1 + 1\<rparr>))"
    using tm t e by (subst unquoted_close) auto
  finally show ?thesis .
qed

lemma row_parse:
  assumes "fs \<noteq> []" "\<forall>f\<in>set fs. plain_field f"
    "holds_at m p (join_comma fs @ [LF])" "p + length (join_comma fs) < e"
  shows "(cell + length fs \<le> cells_capacity \<longrightarrow>
           (\<exists>r'. parse_from m e cell_start p cs cell r =
                    Inr (Some (p + length (join_comma fs) + 1), r') \<and>
                 count r' = count r + length fs \<and>
                 (\<forall>i<length fs. as_str m (cells r' (cell + i)) = fs ! i) \<and>
                 (\<forall>j<cell. cells r' j = cells r j))) \<and>
         (cells_capacity < cell + length fs \<longrightarrow>
           parse_from m e cell_start p cs cell r = Inl CellWriteOutOfBounds)"
  using assms
proof (induction fs arbitrary: p cs cell r rule: join_comma.induct)
  case 1
  then show ?case by simp
next
  case (2 f)
  have f: "plain_field f" using "2.prems" by simp
  have mem: "holds_at m p (f @ [LF])" using "2.prems" by simp
  have e: "p + length f < e" using "2.prems" by simp
  have fm: "holds_at m p f" using mem by (simp add: holds_at_append)
  note step = field_step[OF f _ mem e, of cs cell r, simplified]
  show ?case
  proof (cases "cell < cells_capacity")
    case True
    then show ?thesis
      using step fm by (auto simp: write_cell_def as_str_def holds_at_def)
  next
    case False
    then show ?thesis
      using step by (auto simp: write_cell_def)
  qed
next
  case (3 f g fs)
  let ?rest = "g # fs"
  have f: "plain_field f" using "3.prems" by simp
  have mem: "holds_at m p (f @ [comma])"
    and mem': "holds_at m (p + length f + 1) (join_comma ?rest @ [LF])"
    using "3.prems"(3) holds_at_append[of m p "f @ [comma]" "join_comma ?rest @ [LF]"]
    by simp_all
  have e: "p + length f < e" using "3.prems" by simp
  have e': "p + length f + 1 + length (join_comma ?rest) < e" using "3.prems" by simp
  have fm: "holds_at m p f" using mem by (simp add: holds_at_append)
  note step = field_step[OF f _ mem e, of cs cell r, simplified]
  show ?case
  proof (cases "cell < cells_capacity")
    case False
    then show ?thesis
      using step by (auto simp: write_cell_def)
  next
    case True
    define r1 where "r1 = r\<lparr>cells := (cells r)(cell := \<lparr>ptr = p, size_c = length f\<rparr>), count := count r + 1\<rparr>"
    have st: "parse_from m e cell_start p cs cell r =
              parse_from m e cell_start (p + length f + 1) p (cell + 1) r1"
      using step True by (simp add: write_cell_def r1_def)
    note IH = "3.IH"[of "p + length f + 1" "cell + 1" p r1, OF _ _ mem' e']
    have IH': "(cell + 1 + length ?rest \<le> cells_capacity \<longrightarrow>
           (\<exists>r'. parse_from m e cell_start (p + length f + 1) p (cell + 1) r1 =
                    Inr (Some (p + length f + 1 + length (join_comma ?rest) + 1), r') \<and>
                 count r' = count r1 + length ?rest \<and>
                 (\<forall>i<length ?rest. as_str m (cells r' (cell + 1 + i)) = ?rest ! i) \<and>
                 (\<forall>j<cell + 1. cells r' j = cells r1 j))) \<and>
         (cells_capacity < cell + 1 + length ?rest \<longrightarrow>
           parse_from m e cell_start (p + length f + 1) p (cell + 1) r1 = Inl CellWriteOutOfBounds)"
      using IH "3.prems"(2) by simp
    show ?thesis
    proof (intro conjI impI)
      assume cap: "cell + length (f # g # fs) \<le> cells_capacity"
      then obtain r' where r':
        "parse_from m e cell_start (p + length f + 1) p (cell + 1) r1 =
           Inr (Some (p + length f + 1 + length (join_comma ?rest) + 1), r')"
        "count r' = count r1 + length ?rest"
        "\<forall>i<length ?rest. as_str m (cells r' (cell + 1 + i)) = ?rest ! i"
        "\<forall>j<cell + 1. cells r' j = cells r1 j"
        using IH' by auto
      have c0: "as_str m (cells r' cell) = f"
        using r'(4) fm by (simp add: r1_def as_str_def holds_at_def)
      have nth: "as_str m (cells r' (cell + i)) = (f # g # fs) ! i" if "i < length (f # g # fs)" for i
      proof (cases i)
        case 0
        then show ?thesis using c0 by simp
      next
        case (Suc k)
        then show ?thesis using r'(3) that by simp
      qed
      have "parse_from m e cell_start p cs cell r =
              Inr (Some (p + length (join_comma (f # g # fs)) + 1), r')"
        using st r'(1) by (simp add: add.assoc)
      moreover have "count r' = count r + length (f # g # fs)"
        using r'(2) by (simp add: r1_def)
      moreover have "\<forall>j<cell. cells r' j = cells r j"
        using r'(4) by (simp add: r1_def)
      ultimately show "\<exists>r'. parse_from m e cell_start p cs cell r =
                    Inr (Some (p + length (join_comma (f # g # fs)) + 1), r') \<and>
                 count r' = count r + length (f # g # fs) \<and>
                 (\<forall>i<length (f # g # fs). as_str m (cells r' (cell + i)) = (f # g # fs) ! i) \<and>
                 (\<forall>j<cell. cells r' j = cells r j)"
        using nth by blast
    next
      assume "cells_capacity < cell + length (f # g # fs)"
      then show "parse_from m e cell_start p cs cell r = Inl CellWriteOutOfBounds"
        using st IH' by simp
    qed
  qed
qed

section \<open>What every parse keeps\<close>

lemma cell_start_ignores_cstart:
  "parse_from m e cell_start p cs cell r = parse_from m e cell_start p cs' cell r"
proof (induction "e - p" arbitrary: p rule: less_induct)
  case less
  show ?case
  proof (cases "p \<ge> e")
    case True
    then show ?thesis by (simp add: parse_from.simps(1))
  next
    case False
    then have "e - (p + 1) < e - p" by simp
    from less[OF this] have "parse_from m e cell_start (p + 1) cs cell r =
        parse_from m e cell_start (p + 1) cs' cell r" .
    then show ?thesis
      by (simp add: parse_from.simps(1)[of m e p cs] parse_from.simps(1)[of m e p cs'])
  qed
qed

lemma parse_from_Some:
  "parse_from m e l p cs cell r = Inr (Some p', r') \<Longrightarrow> p < p' \<and> p' \<le> e"
proof (induction m e l p cs cell r rule: parse_from.induct)
  case (1 m endp p cstart cell r)
  from "1.prems" show ?case
    unfolding parse_from.simps(1)[of m endp p cstart cell r]
    using "1.IH" by (auto split: if_splits)
next
  case (2 m endp p cstart cell r)
  from "2.prems" show ?case
    unfolding parse_from.simps(2)[of m endp p cstart cell r]
    using "2.IH" by (auto split: if_splits)
next
  case (3 m endp p cstart cell r)
  from "3.prems" show ?case
    unfolding parse_from.simps(3)[of m endp p cstart cell r]
    using "3.IH" by (auto split: if_splits sum.splits)
next
  case (4 m endp p cstart cell r)
  from "4.prems" show ?case
    unfolding parse_from.simps(4)[of m endp p cstart cell r]
    using "4.IH" by (auto split: if_splits sum.splits)
qed

lemma parse_from_count:
  "parse_from m e l p cs cell r = Inr (res, r') \<Longrightarrow> cell = count r \<Longrightarrow>
   count r \<le> cells_capacity \<Longrightarrow> count r' \<le> cells_capacity"
proof (induction m e l p cs cell r rule: parse_from.induct)
  case (1 m endp p cstart cell r)
  from "1.prems" show ?case
    unfolding parse_from.simps(1)[of m endp p cstart cell r]
    using "1.IH" by (auto split: if_splits)
next
  case (2 m endp p cstart cell r)
  from "2.prems" show ?case
    unfolding parse_from.simps(2)[of m endp p cstart cell r]
    using "2.IH" by (auto split: if_splits)
next
  case (3 m endp p cstart cell r)
  note eq = "3.prems"(1)[unfolded parse_from.simps(3)[of m endp p cstart cell r]]
  show ?case
  proof (cases "p \<ge> endp")
    case True
    then show ?thesis using eq "3.prems" by simp
  next
    case inside: False
    show ?thesis
    proof (cases "strcspn16 m p [comma, CR, LF] \<noteq> 0")
      case True
      then show ?thesis using eq inside "3.IH"(1) "3.prems" by simp
    next
      case stop: False
      show ?thesis
      proof (cases "cell < cells_capacity")
        case False
        then show ?thesis using eq inside stop by (simp add: write_cell_def)
      next
        case True
        define r1 where "r1 = r\<lparr>cells := (cells r)(cell := \<lparr>ptr = cstart, size_c = p - cstart\<rparr>)\<rparr>"
        have w: "write_cell r cell \<lparr>ptr = cstart, size_c = p - cstart\<rparr> = Inr r1"
          using True by (simp add: write_cell_def r1_def)
        show ?thesis
        proof (cases "m p = LF")
          case True
          then show ?thesis
            using eq inside stop w \<open>cell < cells_capacity\<close> "3.prems"(2)
            by (auto simp: r1_def)
        next
          case False
          have "parse_from m endp cell_start (p + 1) cstart (cell + 1)
                  (r1\<lparr>count := count r1 + 1\<rparr>) = Inr (res, r')"
            using eq inside stop w False by simp
          then show ?thesis
            using "3.IH"(2)[OF inside stop w False] "3.prems"(2) \<open>cell < cells_capacity\<close>
            by (simp add: r1_def)
        qed
      qed
    qed
  qed
next
  case (4 m endp p cstart cell r)
  note eq = "4.prems"(1)[unfolded parse_from.simps(4)[of m endp p cstart cell r]]
  show ?case
  proof (cases "p \<ge> endp")
    case True
    then show ?thesis using eq "4.prems" by simp
  next
    case inside: False
    show ?thesis
    proof (cases "m p = comma \<or> m p = LF")
      case False
      then show ?thesis using eq inside "4.IH"(2) "4.prems" by simp
    next
      case sep: True
      show ?thesis
      proof (cases "cell < cells_capacity")
        case False
        then show ?thesis using eq inside sep by (auto simp: write_cell_def)
      next
        case True
        define r1 where "r1 = r\<lparr>cells := (cells r)(cell := \<lparr>ptr = cstart, size_c = p - cstart - 1\<rparr>)\<rparr>"
        have w: "write_cell r cell \<lparr>ptr = cstart, size_c = p - cstart - 1\<rparr> = Inr r1"
          using True by (simp add: write_cell_def r1_def)
        show ?thesis
        proof (cases "m p = comma")
          case True
          have "parse_from m endp cell_start (p + 1) cstart (cell + 1)
                  (r1\<lparr>count := count r1 + 1\<rparr>) = Inr (res, r')"
            using eq inside w True by simp
          then show ?thesis
            using "4.IH"(1)[OF inside True w] "4.prems"(2) \<open>cell < cells_capacity\<close>
            by (simp add: r1_def)
        next
          case False
          then have "m p = LF" using sep by simp
          then show ?thesis
            using eq inside False w \<open>cell < cells_capacity\<close> "4.prems"(2)
            by (auto simp: r1_def)
        qed
      qed
    qed
  qed
qed

section \<open>Comparing a cell with a string\<close>

lemma strncmp_zero_iff:
  "strncmp s1 s2 n = 0 \<longleftrightarrow> (\<forall>i<n. (\<forall>j<i. s1 j \<noteq> NUL) \<longrightarrow> s1 i = s2 i)"
proof (induction n arbitrary: s1 s2)
  case 0
  show ?case by simp
next
  case (Suc n)
  have diff: "int (of_char a) - int (of_char b) = 0 \<longleftrightarrow> a = b" for a b :: char
    by (metis cancel_comm_monoid_add_class.diff_cancel eq_iff_diff_eq_0 of_char_eq_iff of_nat_eq_iff)
  have split: "(\<forall>i<Suc n. (\<forall>j<i. s1 j \<noteq> NUL) \<longrightarrow> s1 i = s2 i) \<longleftrightarrow>
     s1 0 = s2 0 \<and> (s1 0 = NUL \<or> (\<forall>i<n. (\<forall>j<i. s1 (Suc j) \<noteq> NUL) \<longrightarrow> s1 (Suc i) = s2 (Suc i)))"
    (is "?L \<longleftrightarrow> ?R")
  proof
    assume L: ?L
    have a: "s1 0 = s2 0" using L by auto
    have "s1 (Suc i) = s2 (Suc i)" if "s1 0 \<noteq> NUL" "i < n" "\<forall>j<i. s1 (Suc j) \<noteq> NUL" for i
    proof -
      have "\<forall>j<Suc i. s1 j \<noteq> NUL"
        using that by (auto simp: less_Suc_eq_0_disj)
      then show ?thesis using L that(2) by auto
    qed
    then show ?R using a by blast
  next
    assume R: ?R
    show ?L
    proof (intro allI impI)
      fix i assume i: "i < Suc n" "\<forall>j<i. s1 j \<noteq> NUL"
      show "s1 i = s2 i"
      proof (cases i)
        case 0
        then show ?thesis using R by simp
      next
        case (Suc k)
        then have "s1 0 \<noteq> NUL" "\<forall>j<k. s1 (Suc j) \<noteq> NUL" using i(2) by auto
        then show ?thesis using R Suc i(1) by auto
      qed
    qed
  qed
  show ?case
    unfolding split using Suc.IH[of "\<lambda>i. s1 (Suc i)" "\<lambda>i. s2 (Suc i)"]
    by (auto simp: diff)
qed

lemma c_str_nth: "c_str s i = (if i < length s then s ! i else NUL)"
  by (simp add: c_str_def mem_of_list_def)

lemma cmp_c_str:
  assumes "NUL \<notin> set s"
  shows "(\<forall>i<n. (\<forall>j<i. f j \<noteq> NUL) \<longrightarrow> f i = c_str s i) \<longleftrightarrow>
     (n \<le> length s \<and> (\<forall>i<n. f i = s ! i)) \<or>
     (length s < n \<and> (\<forall>i<length s. f i = s ! i) \<and> f (length s) = NUL)"
    (is "?A \<longleftrightarrow> ?P \<or> ?Q")
proof
  have snz: "s ! i \<noteq> NUL" if "i < length s" for i
    using assms that nth_mem by fastforce
  assume a: ?A
  have agree: "i < n \<Longrightarrow> i < length s \<Longrightarrow> f i = s ! i" for i
  proof (induction i rule: less_induct)
    case (less i)
    have "f j \<noteq> NUL" if "j < i" for j
    proof -
      have "f j = s ! j" using less.IH[OF that] that less.prems by simp
      then show ?thesis using snz[of j] that less.prems by simp
    qed
    then have "f i = c_str s i" using a less.prems(1) by blast
    then show ?case using less.prems(2) by (simp add: c_str_nth)
  qed
  show "?P \<or> ?Q"
  proof (cases "n \<le> length s")
    case True
    then show ?thesis using agree by simp
  next
    case False
    then have lt: "length s < n" by simp
    have "f j \<noteq> NUL" if "j < length s" for j
      using agree[of j] snz[of j] that lt by simp
    then have "f (length s) = c_str s (length s)" using a lt by blast
    then have "f (length s) = NUL" by (simp add: c_str_nth)
    then show ?thesis using lt agree by simp
  qed
next
  assume pq: "?P \<or> ?Q"
  show ?A
  proof (intro allI impI)
    fix i assume i: "i < n" "\<forall>j<i. f j \<noteq> NUL"
    from pq show "f i = c_str s i"
    proof
      assume ?P
      then show ?thesis using i(1) by (simp add: c_str_nth)
    next
      assume q: ?Q
      have "\<not> length s < i" using i(2) q by blast
      then consider "i < length s" | "i = length s" by linarith
      then show ?thesis
      proof cases
        case 1
        then show ?thesis using q by (simp add: c_str_nth)
      next
        case 2
        then show ?thesis using q by (simp add: c_str_nth)
      qed
    qed
  qed
qed

lemma equals_iff:
  assumes "NUL \<notin> set s"
  shows "equals m c (c_str s) \<longleftrightarrow>
     prefix (as_str m c) s \<or>
     (length s < size_c c \<and> take (length s) (as_str m c) = s \<and> as_str m c ! length s = NUL)"
proof -
  let ?b = "as_str m c"
  let ?f = "\<lambda>i. m (ptr c + i)"
  have len: "length ?b = size_c c" by (simp add: as_str_def)
  have nth: "?b ! i = ?f i" if "i < size_c c" for i
    using that by (simp add: as_str_def)
  have "equals m c (c_str s) \<longleftrightarrow> strncmp ?f (c_str s) (size_c c) = 0"
    unfolding equals_def by (rule eq_commute)
  also have "\<dots> \<longleftrightarrow>
     (size_c c \<le> length s \<and> (\<forall>i<size_c c. ?f i = s ! i)) \<or>
     (length s < size_c c \<and> (\<forall>i<length s. ?f i = s ! i) \<and> ?f (length s) = NUL)"
    unfolding strncmp_zero_iff by (rule cmp_c_str[OF assms])
  also have "(size_c c \<le> length s \<and> (\<forall>i<size_c c. ?f i = s ! i)) \<longleftrightarrow> prefix ?b s"
  proof
    assume h: "size_c c \<le> length s \<and> (\<forall>i<size_c c. ?f i = s ! i)"
    then have "?b = take (size_c c) s"
      using len nth by (intro nth_equalityI) simp_all
    then show "prefix ?b s" using take_is_prefix[of "size_c c" s] by simp
  next
    assume "prefix ?b s"
    then obtain zs where zs: "s = ?b @ zs" by (auto simp: prefix_def)
    have "size_c c \<le> length s" using len zs by (metis length_append le_add1)
    moreover have "?f i = s ! i" if "i < size_c c" for i
    proof -
      have "s ! i = ?b ! i" using zs that len by (metis nth_append)
      then show ?thesis using nth[OF that] by simp
    qed
    ultimately show "size_c c \<le> length s \<and> (\<forall>i<size_c c. ?f i = s ! i)" by blast
  qed
  also have "(length s < size_c c \<and> (\<forall>i<length s. ?f i = s ! i) \<and> ?f (length s) = NUL) \<longleftrightarrow>
     (length s < size_c c \<and> take (length s) ?b = s \<and> ?b ! length s = NUL)"
  proof (cases "length s < size_c c")
    case False
    then show ?thesis by simp
  next
    case True
    have "(\<forall>i<length s. ?f i = s ! i) \<longleftrightarrow> take (length s) ?b = s"
    proof
      assume "\<forall>i<length s. ?f i = s ! i"
      then show "take (length s) ?b = s"
        using True len nth by (intro nth_equalityI) simp_all
    next
      assume t: "take (length s) ?b = s"
      show "\<forall>i<length s. ?f i = s ! i"
      proof (intro allI impI)
        fix i assume i: "i < length s"
        have "take (length s) ?b ! i = ?b ! i" using i by simp
        then show "?f i = s ! i" using t nth[of i] i True by simp
      qed
    qed
    then show ?thesis using True nth[OF True] by simp
  qed
  finally show ?thesis .
qed

section \<open>Rows of plain fields\<close>

lemma try_parse_plain_row:
  assumes "fs \<noteq> []" "list_all plain_field fs"
    "holds_at (StreamCursor_mem (stream_R rd)) (p_R rd) (join_comma fs @ [LF])"
    "p_R rd + length (join_comma fs) < endp_R rd"
  shows "(length fs \<le> cells_capacity \<longrightarrow>
           (\<exists>rd'. try_parse rd = Inr (True, rd') \<and> count (row_R rd') = length fs \<and>
                  cell_strs rd' = fs \<and> p_R rd' = p_R rd + length (join_comma fs) + 1)) \<and>
         (cells_capacity < length fs \<longrightarrow> try_parse rd = Inl CellWriteOutOfBounds)"
proof -
  let ?m = "StreamCursor_mem (stream_R rd)"
  let ?r0 = "(row_R rd)\<lparr>count := 0\<rparr>"
  have pl: "\<forall>f\<in>set fs. plain_field f" using assms(2) by (simp add: list_all_iff)
  note rp = row_parse[OF assms(1) pl assms(3) assms(4), of 0 "p_R rd" ?r0]
  show ?thesis
  proof (intro conjI impI)
    assume "length fs \<le> cells_capacity"
    then obtain r' where r':
      "parse_from ?m (endp_R rd) cell_start (p_R rd) (p_R rd) 0 ?r0 =
         Inr (Some (p_R rd + length (join_comma fs) + 1), r')"
      "count r' = length fs"
      "\<forall>i<length fs. as_str ?m (cells r' i) = fs ! i"
      using rp by auto
    let ?rd' = "rd\<lparr>row_R := r', p_R := p_R rd + length (join_comma fs) + 1\<rparr>"
    have "try_parse rd = Inr (True, ?rd')"
      using r'(1) by (simp add: try_parse_def)
    moreover have "cell_strs ?rd' = fs"
      using r'(2,3) by (auto simp: cell_strs_def row_def row_strs_def intro: nth_equalityI)
    ultimately show "\<exists>rd'. try_parse rd = Inr (True, rd') \<and> count (row_R rd') = length fs \<and>
                  cell_strs rd' = fs \<and> p_R rd' = p_R rd + length (join_comma fs) + 1"
      using r'(2) by (intro exI[of _ ?rd']) simp
  next
    assume "cells_capacity < length fs"
    then show "try_parse rd = Inl CellWriteOutOfBounds"
      using rp by (simp add: try_parse_def)
  qed
qed

lemma read_row_of_try_parse: "try_parse rd = Inr (True, rd') \<Longrightarrow> read_row rd = Inr (True, rd')"
  by (simp add: read_row_def)

lemma read_row_of_fault: "try_parse rd = Inl f \<Longrightarrow> read_row rd = Inl f"
  by (simp add: read_row_def)

lemma holds_at_bytes: "holds_at m a (xs @ ys) \<Longrightarrow> bytes_at m a (length xs) = xs"
  unfolding holds_at_append by (simp add: holds_at_def)

lemma join_comma_empty_fields: "join_comma (replicate (Suc n) []) = replicate n comma"
  by (induction n) simp_all

lemma holds_at_mem_of_list: "holds_at (mem_of_list bs) 0 bs"
  by (simp add: holds_at_nth mem_of_list_def)

lemma mapped_reader_simps:
  "StreamCursor_mem (stream_R (mapped_reader bs)) = mem_of_list bs"
  "p_R (mapped_reader bs) = 0"
  "endp_R (mapped_reader bs) = length bs"
  by (simp_all add: mapped_reader_def CsvReader_new_def MappedFileCursor_open_def)

section \<open>The count of cells and the two positions\<close>

lemma try_parse_count:
  assumes "try_parse rd = Inr (b, rd')"
  shows "count (row_R rd') \<le> cells_capacity"
proof -
  let ?m = "StreamCursor_mem (stream_R rd)"
  let ?r0 = "(row_R rd)\<lparr>count := 0\<rparr>"
  obtain res r' where pf: "parse_from ?m (endp_R rd) cell_start (p_R rd) (p_R rd) 0 ?r0 = Inr (res, r')"
    and r': "row_R rd' = r'"
    using assms by (auto simp: try_parse_def split: sum.splits option.splits)
  have "count r' \<le> cells_capacity"
    using parse_from_count[OF pf] by simp
  then show ?thesis using r' by simp
qed

lemma refill_row: "refill rd = Inr (b, rd') \<Longrightarrow> row_R rd' = row_R rd"
  by (auto simp: refill_def split: sum.splits)

lemma read_row_cases:
  assumes "read_row rd = Inr (b, rd')"
  obtains (first) "b" "try_parse rd = Inr (True, rd')"
  | (eos) rd1 where "\<not> b" "try_parse rd = Inr (False, rd1)" "refill rd1 = Inr (False, rd')"
  | (retry) rd1 rd2 where "try_parse rd = Inr (False, rd1)" "refill rd1 = Inr (True, rd2)"
      "try_parse rd2 = Inr (b, rd')"
  using assms by (auto simp: read_row_def split: sum.splits bool.splits)

lemma read_row_count:
  assumes "read_row rd = Inr (b, rd')"
  shows "count (row_R rd') \<le> cells_capacity"
  using assms
proof (cases rule: read_row_cases)
  case first
  then show ?thesis using try_parse_count by blast
next
  case (eos rd1)
  then show ?thesis using try_parse_count[of rd False rd1] refill_row[of rd1 False rd'] by simp
next
  case (retry rd1 rd2)
  then show ?thesis using try_parse_count by blast
qed

lemma try_parse_False:
  assumes "try_parse rd = Inr (False, rd')"
  shows "p_R rd' = p_R rd \<and> endp_R rd' = endp_R rd \<and> stream_R rd' = stream_R rd"
  using assms by (auto simp: try_parse_def split: sum.splits option.splits)

lemma try_parse_True:
  assumes "try_parse rd = Inr (True, rd')"
  shows "p_R rd < p_R rd' \<and> p_R rd' \<le> endp_R rd' \<and> endp_R rd' = endp_R rd \<and>
         stream_R rd' = stream_R rd"
proof -
  let ?m = "StreamCursor_mem (stream_R rd)"
  let ?r0 = "(row_R rd)\<lparr>count := 0\<rparr>"
  obtain p' r' where pf: "parse_from ?m (endp_R rd) cell_start (p_R rd) (p_R rd) 0 ?r0 = Inr (Some p', r')"
    and rd': "rd' = rd\<lparr>row_R := r', p_R := p'\<rparr>"
    using assms by (auto simp: try_parse_def split: sum.splits option.splits)
  have "p_R rd < p' \<and> p' \<le> endp_R rd"
    using parse_from_Some[OF pf] .
  then show ?thesis by (simp add: rd')
qed

lemma refill_window:
  assumes "refill rd = Inr (b, rd')"
  shows "p_R rd' \<le> endp_R rd'"
  using assms by (auto simp: refill_def split: sum.splits)

lemma try_parse_inv:
  assumes "p_R rd \<le> endp_R rd" "try_parse rd = Inr (b, rd')"
  shows "p_R rd' \<le> endp_R rd'"
proof (cases b)
  case True
  then show ?thesis using try_parse_True[of rd rd'] assms(2) by simp
next
  case False
  then show ?thesis using try_parse_False[of rd rd'] assms by simp
qed

lemma read_row_inv:
  assumes "p_R rd \<le> endp_R rd" "read_row rd = Inr (b, rd')"
  shows "p_R rd' \<le> endp_R rd'"
  using assms(2)
proof (cases rule: read_row_cases)
  case first
  then show ?thesis using try_parse_True[of rd rd'] by simp
next
  case (eos rd1)
  then show ?thesis using refill_window by blast
next
  case (retry rd1 rd2)
  then show ?thesis using refill_window[of rd1 True rd2] try_parse_inv[of rd2 b rd'] by simp
qed

section \<open>The window of the reader\<close>

lemma window_ok_new: "window_ok (CsvReader_new s)"
  by (simp add: window_ok_def CsvReader_new_def)

lemma window_ok_try_parse:
  assumes "window_ok rd" "try_parse rd = Inr (b, rd')"
  shows "window_ok rd'"
proof (cases b)
  case True
  then show ?thesis
    using try_parse_True[of rd rd'] assms by (auto simp: window_ok_def)
next
  case False
  then show ?thesis
    using try_parse_False[of rd rd'] assms by (auto simp: window_ok_def)
qed

lemma window_ok_refill:
  assumes "refill rd = Inr (b, rd')"
  shows "window_ok rd'"
  using assms by (auto simp: refill_def window_ok_def split: sum.splits)

lemma window_ok_read_row:
  assumes "window_ok rd" "read_row rd = Inr (b, rd')"
  shows "window_ok rd'"
  using assms(2)
proof (cases rule: read_row_cases)
  case first
  then show ?thesis using window_ok_try_parse[OF assms(1)] by blast
next
  case (eos rd1)
  then show ?thesis using window_ok_refill by blast
next
  case (retry rd1 rd2)
  then show ?thesis
    using window_ok_refill[of rd1 True rd2] window_ok_try_parse[of rd2 b rd'] by blast
qed

lemma refill_shift_consumed:
  assumes "window_ok rd"
  shows "refill_shift rd =
     (if p_R rd < endp_R rd then p_R rd - StreamCursor_buf (stream_R rd) else 0)"
  using assms by (auto simp: refill_shift_def window_ok_def)

section \<open>The scanners and the leading bytes of a chunk\<close>

lemma implicit_str_id: "NUL \<notin> set stops \<Longrightarrow> implicit_str stops = stops"
  unfolding implicit_str_def takeWhile_eq_all_conv by blast

lemma strcspn16_le: 
  assumes "NUL \<notin> set stops" "length stops \<le> 16"
  shows "strcspn16 m p stops \<le> 16"
  using strcspn16_eq_iff[OF assms, of m p "strcspn16 m p stops"] by auto

lemma strcspn16_leading:
  assumes "NUL \<notin> set stops" "length stops \<le> 16"
  shows "strcspn16 m p stops =
     (if NUL \<in> set (bytes_at m p (leading_non_stop m p stops 16)) then 16
      else leading_non_stop m p stops 16)"
proof -
  let ?cs = "bytes_at m p 16"
  let ?Q = "\<lambda>c. c \<notin> set stops"
  define n where "n = leading_non_stop m p stops 16"
  have n_def': "n = length (takeWhile ?Q ?cs)" by (simp add: n_def leading_non_stop_def)
  have n16: "n \<le> 16"
    unfolding n_def' using length_takeWhile_le[of ?Q ?cs] by simp
  have before: "m (p + i) \<notin> set stops" if "i < n" for i
  proof -
    have "?Q (takeWhile ?Q ?cs ! i)"
      using that n_def' by (metis nth_mem set_takeWhileD)
    moreover have "takeWhile ?Q ?cs ! i = ?cs ! i"
      using that n_def' by (simp add: takeWhile_nth)
    ultimately show ?thesis using that n16 by simp
  qed
  have at: "m (p + n) \<in> set stops" if "n < 16"
  proof -
    have "\<not> ?Q (?cs ! n)"
      unfolding n_def' by (rule nth_length_takeWhile) (use that n_def' in simp)
    then show ?thesis using that by simp
  qed
  have nul: "NUL \<in> set (bytes_at m p n) \<longleftrightarrow> (\<exists>j<n. m (p + j) = NUL)"
    by (auto simp: in_set_conv_nth)
  have "strcspn16 m p stops = (if NUL \<in> set (bytes_at m p n) then 16 else n)"
  proof (cases "\<exists>j<n. m (p + j) = NUL")
    case True
    then obtain j where j: "j < n" "m (p + j) = NUL" by blast
    have "\<not> (\<exists>k<16. m (p + k) \<in> set stops \<and> (\<forall>i<k. m (p + i) \<notin> set stops \<and> m (p + i) \<noteq> NUL))"
    proof
      assume "\<exists>k<16. m (p + k) \<in> set stops \<and> (\<forall>i<k. m (p + i) \<notin> set stops \<and> m (p + i) \<noteq> NUL)"
      then obtain k where k: "m (p + k) \<in> set stops" "\<forall>i<k. m (p + i) \<noteq> NUL" by blast
      have "\<not> k < n" using before k(1) by blast
      then have "j < k" using j(1) by simp
      then show False using k(2) j(2) by blast
    qed
    then have "strcspn16 m p stops = 16"
      using strcspn16_eq_iff[OF assms, of m p 16] by simp
    then show ?thesis using True nul by simp
  next
    case False
    have clean: "\<forall>i<n. m (p + i) \<notin> set stops \<and> m (p + i) \<noteq> NUL"
      using before False by blast
    have "strcspn16 m p stops = n"
    proof (cases "n < 16")
      case True
      then show ?thesis
        using strcspn16_eq_iff[OF assms, of m p n] at clean by simp
    next
      case F: False
      then have n: "n = 16" using n16 by simp
      have "\<not> (\<exists>k<16. m (p + k) \<in> set stops \<and> (\<forall>i<k. m (p + i) \<notin> set stops \<and> m (p + i) \<noteq> NUL))"
        using before n by blast
      then show ?thesis
        using strcspn16_eq_iff[OF assms, of m p 16] n by simp
    qed
    then show ?thesis using False nul by auto
  qed
  then show ?thesis by (simp add: n_def)
qed

lemma strcspn16_zero_iff:
  assumes "NUL \<notin> set stops" "length stops \<le> 16"
  shows "strcspn16 m p stops = 0 \<longleftrightarrow> m p \<in> set stops"
  using strcspn16_eq_iff[OF assms, of m p 0] by simp

lemma StringSpanner_is_strcspn16:
  assumes "NUL \<notin> set stops" "length stops \<le> 16"
  shows "StringSpanner_call (StringSpanner_new stops) m p = strcspn16 m p stops"
proof -
  have "implicit_str stops = stops"
    using assms(1) by (rule implicit_str_id)
  then show ?thesis
    using assms(2) by (simp add: StringSpanner_call_def StringSpanner_new_def strcspn16_def)
qed

lemma fallback_leading:
  assumes t: "FallbackStringSpanner stops False = Inr t" and nn: "NUL \<notin> set stops"
    and w: "leading_non_stop m p (NUL # stops) w < w"
  shows "FallbackStringSpanner_call t m p = Some (leading_non_stop m p (NUL # stops) w)"
proof -
  let ?cs = "bytes_at m p w"
  let ?Q = "\<lambda>c. c \<notin> set (NUL # stops)"
  define n where "n = leading_non_stop m p (NUL # stops) w"
  have n_def': "n = length (takeWhile ?Q ?cs)" by (simp add: n_def leading_non_stop_def)
  have nw: "n < w" using w by (simp add: n_def)
  have tbl: "t ! of_char c = (if c \<in> set stops \<or> c = NUL then 0 else 1)" for c
    using FallbackStringSpanner_table[OF t, of c] implicit_str_id[OF nn] by simp
  have before: "m (p + i) \<notin> set (NUL # stops)" if "i < n" for i
  proof -
    have "?Q (takeWhile ?Q ?cs ! i)"
      using that n_def' by (metis nth_mem set_takeWhileD)
    moreover have "takeWhile ?Q ?cs ! i = ?cs ! i"
      using that n_def' by (simp add: takeWhile_nth)
    ultimately show ?thesis using that nw by simp
  qed
  have at: "m (p + n) \<in> set (NUL # stops)"
  proof -
    have "\<not> ?Q (?cs ! n)"
      unfolding n_def' by (rule nth_length_takeWhile) (use nw n_def' in simp)
    then show ?thesis using nw by simp
  qed
  have "spanner_loop t m p p = Some (p + n - p)"
  proof (rule spanner_loop_finds)
    show "t ! of_char c \<le> 1" for c by (simp add: tbl)
    show "t ! of_char (m (p + n)) = 0" using at by (auto simp: tbl)
    show "\<forall>i<n. t ! of_char (m (p + i)) \<noteq> 0" using before by (auto simp: tbl)
    show "p \<le> p" by simp
  qed
  then show ?thesis by (simp add: FallbackStringSpanner_call_def n_def)
qed

section \<open>Quoted cells\<close>

lemma stops1: "NUL \<notin> set [quote]" "length [quote] \<le> 16"
  by simp_all

lemma quoted_skip:
  assumes "\<forall>i<k. m (p + i) \<notin> {quote, NUL}" "m (p + k) = quote" "p + k < e"
  shows "parse_from m e in_quoted_cell p cs cell r =
         parse_from m e in_escape_or_end_of_cell (p + k + 1) cs cell r"
  using assms
proof (induction k arbitrary: p rule: less_induct)
  case (less k)
  have pe: "p < e" using less.prems(3) by simp
  show ?case
  proof (cases "k < 16")
    case True
    have "strcspn16 m p [quote] = k"
      unfolding strcspn16_eq_iff[OF stops1] using True less.prems by auto
    then show ?thesis
      unfolding parse_from.simps(2)[of m e p cs cell r] using True pe by simp
  next
    case False
    have rc: "strcspn16 m p [quote] = 16"
      unfolding strcspn16_eq_iff[OF stops1] using False less.prems by auto
    have "parse_from m e in_quoted_cell p cs cell r =
          parse_from m e in_quoted_cell (p + 16) cs cell r"
      unfolding parse_from.simps(2)[of m e p cs cell r] using pe rc by simp
    also have "\<dots> = parse_from m e in_escape_or_end_of_cell (p + 16 + (k - 16) + 1) cs cell r"
    proof (rule less.IH)
      show "k - 16 < k" using False by simp
      show "\<forall>i<k - 16. m (p + 16 + i) \<notin> {quote, NUL}"
        using less.prems(1) by (auto simp: add.assoc)
      show "m (p + 16 + (k - 16)) = quote" using less.prems(2) False by simp
      show "p + 16 + (k - 16) < e" using less.prems(3) False by simp
    qed
    finally show ?thesis using False by simp
  qed
qed

lemma quoted_content:
  assumes "segs \<noteq> []" "\<forall>s\<in>set segs. quote_free s" "t = comma \<or> t = LF"
    "holds_at m q (join_quotes segs @ [quote, t])" "q + length (join_quotes segs) + 1 < e"
  shows "parse_from m e in_quoted_cell q cs cell r =
     (case write_cell r cell \<lparr>ptr = cs, size_c = q + length (join_quotes segs) - cs\<rparr> of
        Inl x \<Rightarrow> Inl x
      | Inr r1 \<Rightarrow>
          if t = LF then Inr (Some (q + length (join_quotes segs) + 2), r1\<lparr>count := count r1 + 1\<rparr>)
          else parse_from m e cell_start (q + length (join_quotes segs) + 2) cs (cell + 1)
                 (r1\<lparr>count := count r1 + 1\<rparr>))"
  using assms
proof (induction segs arbitrary: q rule: join_quotes.induct)
  case 1
  then show ?case by simp
next
  case (2 s)
  have mem: "holds_at m q (s @ [quote, t])" using "2.prems" by simp
  have hs: "holds_at m q s" and cq: "m (q + length s) = quote"
    and ct: "m (q + length s + 1) = t"
    using mem by (simp_all add: holds_at_append holds_at_Cons)
  have bytes: "\<forall>i<length s. m (q + i) = s ! i"
    using hs by (simp add: holds_at_nth)
  have clean: "\<forall>i<length s. m (q + i) \<notin> {quote, NUL}"
    using "2.prems"(2) bytes by (simp add: quote_free_def)
  have e: "q + length s + 1 < e" using "2.prems" by simp
  have "parse_from m e in_quoted_cell q cs cell r =
        parse_from m e in_escape_or_end_of_cell (q + length s + 1) cs cell r"
    by (rule quoted_skip) (use clean cq e in auto)
  also have "\<dots> =
     (case write_cell r cell \<lparr>ptr = cs, size_c = q + length s - cs\<rparr> of
        Inl x \<Rightarrow> Inl x
      | Inr r1 \<Rightarrow>
          if t = LF then Inr (Some (q + length s + 2), r1\<lparr>count := count r1 + 1\<rparr>)
          else parse_from m e cell_start (q + length s + 2) cs (cell + 1)
                 (r1\<lparr>count := count r1 + 1\<rparr>))"
    unfolding parse_from.simps(4)[of m e "q + length s + 1" cs cell r]
    using ct e "2.prems"(3) by (cases "cell < cells_capacity") (auto simp: write_cell_def)
  finally show ?case unfolding join_quotes.simps .
next
  case (3 s u ss)
  let ?rest = "u # ss"
  have mem: "holds_at m q (s @ [quote, quote])"
    and mem': "holds_at m (q + length s + 2) (join_quotes ?rest @ [quote, t])"
    using "3.prems"(4) holds_at_append[of m q "s @ [quote, quote]" "join_quotes ?rest @ [quote, t]"]
    by simp_all
  have hs: "holds_at m q s" and cq: "m (q + length s) = quote"
    and cq2: "m (q + length s + 1) = quote"
    using mem by (simp_all add: holds_at_append holds_at_Cons)
  have bytes: "\<forall>i<length s. m (q + i) = s ! i"
    using hs by (simp add: holds_at_nth)
  have clean: "\<forall>i<length s. m (q + i) \<notin> {quote, NUL}"
    using "3.prems"(2) bytes by (simp add: quote_free_def)
  have e: "q + length s + 1 < e" using "3.prems" by simp
  have e': "q + length s + 2 + length (join_quotes ?rest) + 1 < e" using "3.prems" by simp
  have "parse_from m e in_quoted_cell q cs cell r =
        parse_from m e in_escape_or_end_of_cell (q + length s + 1) cs cell r"
    by (rule quoted_skip) (use clean cq e in auto)
  also have "\<dots> = parse_from m e in_quoted_cell (q + length s + 2) cs cell r"
    unfolding parse_from.simps(4)[of m e "q + length s + 1" cs cell r]
    using cq2 e by simp
  also have "\<dots> =
     (case write_cell r cell
             \<lparr>ptr = cs, size_c = q + length s + 2 + length (join_quotes ?rest) - cs\<rparr> of
        Inl x \<Rightarrow> Inl x
      | Inr r1 \<Rightarrow>
          if t = LF then Inr (Some (q + length s + 2 + length (join_quotes ?rest) + 2),
                              r1\<lparr>count := count r1 + 1\<rparr>)
          else parse_from m e cell_start (q + length s + 2 + length (join_quotes ?rest) + 2) cs
                 (cell + 1) (r1\<lparr>count := count r1 + 1\<rparr>))"
    using "3.IH"[of "q + length s + 2", OF _ _ "3.prems"(3) mem' e'] "3.prems"(2) by simp
  finally have fin: "parse_from m e in_quoted_cell q cs cell r =
     (case write_cell r cell
             \<lparr>ptr = cs, size_c = q + length s + 2 + length (join_quotes ?rest) - cs\<rparr> of
        Inl x \<Rightarrow> Inl x
      | Inr r1 \<Rightarrow>
          if t = LF then Inr (Some (q + length s + 2 + length (join_quotes ?rest) + 2),
                              r1\<lparr>count := count r1 + 1\<rparr>)
          else parse_from m e cell_start (q + length s + 2 + length (join_quotes ?rest) + 2) cs
                 (cell + 1) (r1\<lparr>count := count r1 + 1\<rparr>))" .
  have len: "q + length s + 2 + length (join_quotes ?rest) = q + length (join_quotes (s # u # ss))"
    by simp
  show ?case
    using fin unfolding len .
qed

lemma quoted_field_step:
  assumes "segs \<noteq> []" "\<forall>s\<in>set segs. quote_free s" "t = comma \<or> t = LF"
    "holds_at m p (quote # join_quotes segs @ [quote, t])" "p + length (join_quotes segs) + 2 < e"
  shows "parse_from m e cell_start p cs cell r =
     (case write_cell r cell \<lparr>ptr = p + 1, size_c = length (join_quotes segs)\<rparr> of
        Inl x \<Rightarrow> Inl x
      | Inr r1 \<Rightarrow>
          if t = LF then Inr (Some (p + length (join_quotes segs) + 3), r1\<lparr>count := count r1 + 1\<rparr>)
          else parse_from m e cell_start (p + length (join_quotes segs) + 3) (p + 1) (cell + 1)
                 (r1\<lparr>count := count r1 + 1\<rparr>))"
proof -
  have q: "m p = quote" and mem: "holds_at m (p + 1) (join_quotes segs @ [quote, t])"
    using assms(4) by (simp_all add: holds_at_Cons)
  have "parse_from m e cell_start p cs cell r = parse_from m e in_quoted_cell (p + 1) (p + 1) cell r"
    unfolding parse_from.simps(1)[of m e p cs cell r] using q assms(5) by simp
  also have "\<dots> =
     (case write_cell r cell \<lparr>ptr = p + 1, size_c = p + 1 + length (join_quotes segs) - (p + 1)\<rparr> of
        Inl x \<Rightarrow> Inl x
      | Inr r1 \<Rightarrow>
          if t = LF then Inr (Some (p + 1 + length (join_quotes segs) + 2), r1\<lparr>count := count r1 + 1\<rparr>)
          else parse_from m e cell_start (p + 1 + length (join_quotes segs) + 2) (p + 1) (cell + 1)
                 (r1\<lparr>count := count r1 + 1\<rparr>))"
    by (rule quoted_content[OF assms(1,2,3) mem]) (use assms(5) in simp)
  finally have fin: "parse_from m e cell_start p cs cell r =
     (case write_cell r cell \<lparr>ptr = p + 1, size_c = p + 1 + length (join_quotes segs) - (p + 1)\<rparr> of
        Inl x \<Rightarrow> Inl x
      | Inr r1 \<Rightarrow>
          if t = LF then Inr (Some (p + 1 + length (join_quotes segs) + 2), r1\<lparr>count := count r1 + 1\<rparr>)
          else parse_from m e cell_start (p + 1 + length (join_quotes segs) + 2) (p + 1) (cell + 1)
                 (r1\<lparr>count := count r1 + 1\<rparr>))" .
  have a1: "p + 1 + length (join_quotes segs) - (p + 1) = length (join_quotes segs)" by simp
  have a2: "p + 1 + length (join_quotes segs) + 2 = p + length (join_quotes segs) + 3" by simp
  show ?thesis
    using fin unfolding a1 a2 .
qed

lemma try_parse_quoted_row:
  assumes "segs \<noteq> []" "list_all quote_free segs"
    "holds_at (StreamCursor_mem (stream_R rd)) (p_R rd) (quote # join_quotes segs @ [quote, LF])"
    "p_R rd + length (join_quotes segs) + 2 < endp_R rd"
  shows "\<exists>rd'. try_parse rd = Inr (True, rd') \<and> count (row rd') = 1 \<and>
           cell_strs rd' = [join_quotes segs] \<and>
           p_R rd' = p_R rd + length (join_quotes segs) + 3"
proof -
  let ?m = "StreamCursor_mem (stream_R rd)"
  let ?p = "p_R rd"
  let ?n = "length (join_quotes segs)"
  let ?r0 = "(row_R rd)\<lparr>count := 0\<rparr>"
  let ?r1 = "?r0\<lparr>cells := (cells ?r0)(0 := \<lparr>ptr = ?p + 1, size_c = ?n\<rparr>)\<rparr>"
  let ?rd' = "rd\<lparr>row_R := ?r1\<lparr>count := count ?r1 + 1\<rparr>, p_R := ?p + ?n + 3\<rparr>"
  have qf: "\<forall>s\<in>set segs. quote_free s" using assms(2) by (simp add: list_all_iff)
  have w: "write_cell ?r0 0 \<lparr>ptr = ?p + 1, size_c = ?n\<rparr> = Inr ?r1"
    by (simp add: write_cell_def cells_capacity_def)
  have "parse_from ?m (endp_R rd) cell_start ?p ?p 0 ?r0 =
     (case write_cell ?r0 0 \<lparr>ptr = ?p + 1, size_c = ?n\<rparr> of
        Inl x \<Rightarrow> Inl x
      | Inr r1 \<Rightarrow>
          if LF = LF then Inr (Some (?p + ?n + 3), r1\<lparr>count := count r1 + 1\<rparr>)
          else parse_from ?m (endp_R rd) cell_start (?p + ?n + 3) (?p + 1) (0 + 1)
                 (r1\<lparr>count := count r1 + 1\<rparr>))"
    by (rule quoted_field_step[OF assms(1) qf _ assms(3) assms(4)]) simp
  then have "parse_from ?m (endp_R rd) cell_start ?p ?p 0 ?r0 =
          Inr (Some (?p + ?n + 3), ?r1\<lparr>count := count ?r1 + 1\<rparr>)"
    unfolding w by simp
  then have t: "try_parse rd = Inr (True, ?rd')"
    by (simp add: try_parse_def)
  have "holds_at ?m (?p + 1) (join_quotes segs)"
    using assms(3) by (simp add: holds_at_Cons holds_at_append)
  then have "cell_strs ?rd' = [join_quotes segs]"
    by (simp add: cell_strs_def row_def row_strs_def as_str_def holds_at_def)
  then show ?thesis
    using t by (intro exI[of _ ?rd']) (simp add: row_def)
qed

section \<open>Refills and rows beyond the capacity\<close>

text \<open>
  From a reader whose window is the window of its cursor, \<^verbatim>\<open>refill\<close> passes a shift of
  at most \<^verbatim>\<open>size()\<close>, so the assertion of the buffered \<^verbatim>\<open>more\<close> holds.
\<close>

lemma refill_no_fault:
  assumes "window_ok rd"
  shows "\<exists>b rd'. refill rd = Inr (b, rd')"
proof -
  have le: "refill_shift rd \<le> StreamCursor_size (stream_R rd)"
    using assms by (auto simp: refill_shift_def window_ok_def)
  show ?thesis
  proof (cases "stream_R rd")
    case (Mapped c)
    then show ?thesis
      by (auto simp: refill_def split: prod.splits)
  next
    case (Fd c)
    then have "refill_shift rd \<le> size_B c" using le by simp
    then have "\<exists>b c'. BufferedStreamCursor_more (refill_shift rd) c = Inr (b, c')"
      by (cases "readmore (c\<lparr>buf_B := memcpy (buf_B c) 0 (size_B c - refill_shift rd) (refill_shift rd),
                                size_B := refill_shift rd\<rparr>)")
         (auto simp: BufferedStreamCursor_more_def Let_def)
    then show ?thesis using Fd by (auto simp: refill_def)
  qed
qed

text \<open>
  On 256 commas and LF the 257th cell is stored at \<^verbatim>\<open>cells[256]\<close>.
\<close>

lemma try_parse_row_of_257_fields:
  "try_parse (mapped_reader (replicate 256 comma @ [LF])) = Inl CellWriteOutOfBounds"
proof -
  let ?fs = "replicate 257 ([]::char list)"
  let ?rd = "mapped_reader (replicate 256 comma @ [LF])"
  have j: "join_comma ?fs = replicate 256 comma"
    using join_comma_empty_fields[of 256] by simp
  have "cells_capacity < length ?fs" by (simp add: cells_capacity_def)
  moreover have "?fs \<noteq> []" by simp
  moreover have "list_all plain_field ?fs" by (simp add: list_all_iff plain_field_def)
  moreover have "holds_at (StreamCursor_mem (stream_R ?rd)) (p_R ?rd) (join_comma ?fs @ [LF])"
    unfolding j mapped_reader_simps by (rule holds_at_mem_of_list)
  moreover have "p_R ?rd + length (join_comma ?fs) < endp_R ?rd"
    unfolding j mapped_reader_simps by simp
  ultimately show ?thesis
    using try_parse_plain_row[of ?fs ?rd] by blast
qed

section \<open>The claims\<close>

subsection \<open>C1: a row that spans two pieces of the input\<close>

text \<open>
  Claim C1: for every input and every split offset inside a field, parsing the stream
  delivered in two pieces (the row that spans the split completed by one refill) yields,
  row for row, the same cell contents as parsing the input delivered at once.

  The code does not: \<^verbatim>\<open>refill\<close> hands \<^verbatim>\<open>more\<close> the number of bytes already
  consumed, not the number of bytes left, so the retained prefix of the new window is not
  the unconsumed tail. The input \<open>a,b LF cd,e LF\<close> read at once gives the rows \<open>a|b\<close>
  and \<open>cd|e\<close>; split between \<open>c\<close> and \<open>d\<close> the second row read is an empty cell and
  \<open>b\<close>. Split inside the first row (\<open>a\<close>, then \<open>b,cd LF\<close>) the first call returns
  false and the next one reads \<open>b|cd\<close>: the byte \<open>a\<close> is lost.
\<close>

theorem C1_split_input_gives_other_cells:
  "read_rows 2 (fd_reader [''a,b'' @ [LF] @ ''cd,e'' @ [LF]]) =
     [Inr (True, [''a'', ''b'']), Inr (True, [''cd'', ''e''])] \<and>
   read_rows 2 (fd_reader [''a,b'' @ [LF] @ ''c'', ''d,e'' @ [LF]]) =
     [Inr (True, [''a'', ''b'']), Inr (True, ['''', ''b''])] \<and>
   read_rows 1 (fd_reader [''ab,cd'' @ [LF]]) = [Inr (True, [''ab'', ''cd''])] \<and>
   read_rows 2 (fd_reader [''a'', ''b,cd'' @ [LF]]) = [Inr (False, []), Inr (True, [''b'', ''cd''])]"
  by code_simp

subsection \<open>C2: the shift of a refill\<close>

text \<open>
  Claim C2: when a parse attempt fails, \<^verbatim>\<open>read_row\<close> asks the cursor to refill with
  \<open>shift = end - committed\<close>, so that exactly the unconsumed tail of the window becomes
  the prefix of the new window, and retries the parse once.

  The code computes \<open>shift = size - (end - committed)\<close>. After the row \<open>a,b\<close> of the
  window \<open>a,b LF c\<close> the committed position is 4 and the end is 5: one byte is left,
  and the shift is 4. The window after the refill starts with the last four bytes
  \<open>,b LF c\<close> of the old one, followed by the bytes newly read.
\<close>

theorem C2_refill_keeps_as_many_bytes_as_were_consumed:
  "(case read_row (fd_reader [''a,b'' @ [LF] @ ''c'', ''d,e'' @ [LF]]) of
      Inr (True, rd1) \<Rightarrow>
        p_R rd1 = 4 \<and> endp_R rd1 = 5 \<and> StreamCursor_size (stream_R rd1) = 5 \<and>
        refill_shift rd1 = 4 \<and>
        (case refill rd1 of
           Inr (True, rd2) \<Rightarrow>
             p_R rd2 = 0 \<and> endp_R rd2 = 8 \<and>
             bytes_at (StreamCursor_mem (stream_R rd2)) 0 8 = '',b'' @ [LF] @ ''cd,e'' @ [LF]
         | _ \<Rightarrow> False)
    | _ \<Rightarrow> False)"
  by code_simp

subsection \<open>C3: a row of unquoted fields\<close>

text \<open>
  Claim C3, as stated: for every row of N comma-separated unquoted fields without quote,
  CR or LF, terminated by LF, a successful \<^verbatim>\<open>read_row\<close> produces exactly N cells
  whose bytes, joined with commas, are the bytes of the row.

  A NUL byte in a field breaks it: \<^verbatim>\<open>_mm_cmpistri\<close> takes the 16 bytes it loads as a
  string that ends at its first NUL, sees no stop byte behind the NUL, and returns 16.
  The row \<open>a NUL , b LF\<close> has two fields; followed by a second row \<open>xxxxxxxxxxxx LF\<close>
  the scan jumps from offset 0 to offset 16, and \<^verbatim>\<open>read_row\<close> succeeds with one cell
  of 17 bytes that holds both fields, the LF and the second row.
\<close>

theorem C3_row_with_nul_byte_counterexample:
  "list_all unquoted_field [[CHR ''a'', NUL], ''b''] \<and>
   holds_at (StreamCursor_mem (stream_R (mapped_reader ([CHR ''a'', NUL, comma, CHR ''b'', LF] @ ''xxxxxxxxxxxx'' @ [LF]))))
     (p_R (mapped_reader ([CHR ''a'', NUL, comma, CHR ''b'', LF] @ ''xxxxxxxxxxxx'' @ [LF])))
     (join_comma [[CHR ''a'', NUL], ''b''] @ [LF]) \<and>
   p_R (mapped_reader ([CHR ''a'', NUL, comma, CHR ''b'', LF] @ ''xxxxxxxxxxxx'' @ [LF])) + length (join_comma [[CHR ''a'', NUL], ''b''])
     < endp_R (mapped_reader ([CHR ''a'', NUL, comma, CHR ''b'', LF] @ ''xxxxxxxxxxxx'' @ [LF])) \<and>
   outcome (read_row (mapped_reader ([CHR ''a'', NUL, comma, CHR ''b'', LF] @ ''xxxxxxxxxxxx'' @ [LF]))) =
     Inr (True, [[CHR ''a'', NUL, comma, CHR ''b'', LF] @ ''xxxxxxxxxxxx''])"
  by code_simp

text \<open>
  Claim C3, amended: for every row of N comma-separated fields without comma, quote, CR,
  LF and NUL byte, with N at most 256 (the capacity of the cell array), terminated by LF
  and lying in the current window from the committed position on, \<^verbatim>\<open>read_row\<close>
  succeeds and produces exactly N cells whose bytes are the fields; joined with commas
  they are the bytes of the row without the LF, and the committed position is behind the
  LF. Rows of more than 256 fields are left out: their 257th cell is stored outside the
  array (C5).
\<close>

theorem C3_plain_row_gives_its_fields:
  assumes "fs \<noteq> []" "list_all plain_field fs"
    "holds_at (StreamCursor_mem (stream_R rd)) (p_R rd) (join_comma fs @ [LF])"
    "p_R rd + length (join_comma fs) < endp_R rd"
    "length fs \<le> cells_capacity"
  shows "\<exists>rd'. read_row rd = Inr (True, rd') \<and>
            count (row rd') = length fs \<and> cell_strs rd' = fs \<and>
            join_comma (cell_strs rd') =
              bytes_at (StreamCursor_mem (stream_R rd)) (p_R rd) (length (join_comma fs)) \<and>
            p_R rd' = p_R rd + length (join_comma fs) + 1"
proof -
  obtain rd1 where rd1: "try_parse rd = Inr (True, rd1)" "count (row_R rd1) = length fs"
    "cell_strs rd1 = fs" "p_R rd1 = p_R rd + length (join_comma fs) + 1"
    using try_parse_plain_row[OF assms(1-4)] assms(5) by blast
  have rr: "read_row rd = Inr (True, rd1)"
    using rd1(1) by (rule read_row_of_try_parse)
  have "join_comma fs = bytes_at (StreamCursor_mem (stream_R rd)) (p_R rd) (length (join_comma fs))"
    using holds_at_bytes[OF assms(3)] by simp
  then show ?thesis
    using rr rd1 by (intro exI[of _ rd1]) (simp add: row_def)
qed

theorem C3_plain_row_witness:
  "[''a'', ''b''] \<noteq> [] \<and> list_all plain_field [''a'', ''b''] \<and>
   holds_at (StreamCursor_mem (stream_R (mapped_reader (''a,b'' @ [LF])))) (p_R (mapped_reader (''a,b'' @ [LF])))
     (join_comma [''a'', ''b''] @ [LF]) \<and>
   p_R (mapped_reader (''a,b'' @ [LF])) + length (join_comma [''a'', ''b'']) < endp_R (mapped_reader (''a,b'' @ [LF])) \<and>
   length [''a'', ''b''] \<le> cells_capacity \<and>
   (\<exists>rd'. read_row (mapped_reader (''a,b'' @ [LF])) = Inr (True, rd') \<and> count (row rd') = 2 \<and>
      cell_strs rd' = [''a'', ''b''] \<and> join_comma (cell_strs rd') = ''a,b'' \<and> p_R rd' = 4)"
proof -
  let ?rd = "mapped_reader (''a,b'' @ [LF])"
  let ?fs = "[''a'', ''b'']"
  have h1: "?fs \<noteq> []" by simp
  have h2: "list_all plain_field ?fs" by code_simp
  have h3: "holds_at (StreamCursor_mem (stream_R ?rd)) (p_R ?rd) (join_comma ?fs @ [LF])" by code_simp
  have h4: "p_R ?rd + length (join_comma ?fs) < endp_R ?rd" by code_simp
  have h5: "length ?fs \<le> cells_capacity" by code_simp
  have p0: "p_R ?rd = 0" by code_simp
  from C3_plain_row_gives_its_fields[OF h1 h2 h3 h4 h5]
  obtain rd' where rd': "read_row ?rd = Inr (True, rd')" "count (row rd') = length ?fs"
    "cell_strs rd' = ?fs" "p_R rd' = p_R ?rd + length (join_comma ?fs) + 1" by blast
  then have a: "\<exists>rd'. read_row ?rd = Inr (True, rd') \<and> count (row rd') = 2 \<and>
      cell_strs rd' = ?fs \<and> join_comma (cell_strs rd') = ''a,b'' \<and> p_R rd' = 4"
    using p0 by (intro exI[of _ rd']) simp
  show ?thesis
    by (intro conjI h1 h2 h3 h4 h5 a)
qed

subsection \<open>C4: a row that cannot be completed\<close>

text \<open>
  Claim C4, as stated: when the parse retried after one refill still fails, \<^verbatim>\<open>read_row\<close>
  reports a condition the caller can tell from the end of the stream.

  It cannot: \<^verbatim>\<open>read_row\<close> returns a \<^verbatim>\<open>bool\<close>. On a descriptor that delivers an
  unterminated quoted field and then ends, the first attempt fails on the empty window,
  the refill succeeds, the retried attempt fails, and the call returns false; on a
  descriptor that delivers nothing, the refill fails and the call returns false.
\<close>

theorem C4_malformed_row_returns_like_end_of_stream:
  "returned (read_row (fd_reader [quote # ''abc''])) = Inr False \<and>
   returned (read_row (fd_reader [])) = Inr False \<and>
   (case try_parse (fd_reader [quote # ''abc'']) of
      Inr (False, rd1) \<Rightarrow>
        (case refill rd1 of
           Inr (True, rd2) \<Rightarrow> returned (try_parse rd2) = Inr False \<and> returned (refill rd2) = Inr False
         | _ \<Rightarrow> False)
    | _ \<Rightarrow> False) \<and>
   (case try_parse (fd_reader []) of
      Inr (False, rd1) \<Rightarrow> returned (refill rd1) = Inr False
    | _ \<Rightarrow> False)"
  by code_simp

text \<open>
  Claim C4, amended: \<^verbatim>\<open>read_row\<close> returns false exactly when the first attempt fails
  and then either the refill returns false (end of stream, or a read error) or the
  attempt retried after the refill fails again; the two cases return the same value.
\<close>

theorem C4_read_row_returns_false_in_both_cases:
  "returned (read_row rd) = Inr False \<longleftrightarrow>
     (\<exists>rd1. try_parse rd = Inr (False, rd1) \<and>
        (returned (refill rd1) = Inr False \<or>
         (\<exists>rd2. refill rd1 = Inr (True, rd2) \<and> returned (try_parse rd2) = Inr False)))"
  by (auto simp: read_row_def returned_def split: sum.splits prod.splits bool.splits)

subsection \<open>C5: more fields than the row has cells\<close>

text \<open>
  Claim C5, as stated: a row with more than 256 fields makes the tokenizer report
  RowTooWide, no cell is ever written outside the array, and after every row parse the
  count is at most the capacity.

  The tokenizer has no such report and no check of the slot it writes. On a row of 257
  empty fields (256 commas and LF) the 257th cell is stored through \<^verbatim>\<open>cell\<close> when it
  points at \<^verbatim>\<open>cells[256]\<close>, outside the array.
\<close>

theorem C5_row_of_257_fields_counterexample:
  "returned (read_row (mapped_reader (replicate 256 comma @ [LF]))) = Inl CellWriteOutOfBounds"
proof -
  let ?fs = "replicate 257 ([]::char list)"
  let ?rd = "mapped_reader (replicate 256 comma @ [LF])"
  have j: "join_comma ?fs = replicate 256 comma"
    using join_comma_empty_fields[of 256] by simp
  have "try_parse ?rd = Inl CellWriteOutOfBounds"
  proof -
    have "cells_capacity < length ?fs" by (simp add: cells_capacity_def)
    moreover have "?fs \<noteq> []" by simp
    moreover have "list_all plain_field ?fs" by (simp add: list_all_iff plain_field_def)
    moreover have "holds_at (StreamCursor_mem (stream_R ?rd)) (p_R ?rd) (join_comma ?fs @ [LF])"
      unfolding j mapped_reader_simps by (rule holds_at_mem_of_list)
    moreover have "p_R ?rd + length (join_comma ?fs) < endp_R ?rd"
      unfolding j mapped_reader_simps by simp
    ultimately show ?thesis
      using try_parse_plain_row[of ?fs ?rd] by blast
  qed
  then show ?thesis
    by (simp add: read_row_def returned_def)
qed

text \<open>
  Claim C5, amended: the tokenizer reports no RowTooWide. After every row parse, and
  every \<^verbatim>\<open>read_row\<close>, whose cell stores all stayed inside the array, the count is at
  most the capacity of 256; an LF-terminated row of at most 256 plain fields lying in the
  window is such a parse, and \<^verbatim>\<open>read_row\<close> returns true on it.
\<close>

theorem C5_count_stays_within_capacity:
  "(try_parse rd = Inr (b, rd') \<longrightarrow> count (row rd') \<le> cells_capacity) \<and>
   (read_row rd = Inr (b, rd') \<longrightarrow> count (row rd') \<le> cells_capacity) \<and>
   (fs \<noteq> [] \<and> list_all plain_field fs \<and>
    holds_at (StreamCursor_mem (stream_R rd)) (p_R rd) (join_comma fs @ [LF]) \<and>
    p_R rd + length (join_comma fs) < endp_R rd \<and> length fs \<le> cells_capacity \<longrightarrow>
      returned (read_row rd) = Inr True)"
proof (intro conjI impI)
  assume "try_parse rd = Inr (b, rd')"
  then show "count (row rd') \<le> cells_capacity"
    unfolding row_def by (rule try_parse_count)
next
  assume "read_row rd = Inr (b, rd')"
  then show "count (row rd') \<le> cells_capacity"
    unfolding row_def by (rule read_row_count)
next
  assume h: "fs \<noteq> [] \<and> list_all plain_field fs \<and>
    holds_at (StreamCursor_mem (stream_R rd)) (p_R rd) (join_comma fs @ [LF]) \<and>
    p_R rd + length (join_comma fs) < endp_R rd \<and> length fs \<le> cells_capacity"
  then obtain rd1 where "try_parse rd = Inr (True, rd1)"
    using try_parse_plain_row[of fs rd] by blast
  then show "returned (read_row rd) = Inr True"
    by (simp add: read_row_def returned_def)
qed

theorem C5_count_witness:
  "(\<exists>rd'. try_parse (mapped_reader (''a,b'' @ [LF])) = Inr (True, rd') \<and>
         read_row (mapped_reader (''a,b'' @ [LF])) = Inr (True, rd') \<and>
         count (row rd') \<le> cells_capacity \<and> count (row rd') = 2) \<and>
   [''a'', ''b''] \<noteq> [] \<and> list_all plain_field [''a'', ''b''] \<and>
   holds_at (StreamCursor_mem (stream_R (mapped_reader (''a,b'' @ [LF]))))
     (p_R (mapped_reader (''a,b'' @ [LF]))) (join_comma [''a'', ''b''] @ [LF]) \<and>
   p_R (mapped_reader (''a,b'' @ [LF])) + length (join_comma [''a'', ''b''])
     < endp_R (mapped_reader (''a,b'' @ [LF])) \<and>
   length [''a'', ''b''] \<le> cells_capacity \<and>
   returned (read_row (mapped_reader (''a,b'' @ [LF]))) = Inr True"
proof -
  let ?rd = "mapped_reader (''a,b'' @ [LF])"
  let ?fs = "[''a'', ''b'']"
  have "returned (try_parse ?rd) = Inr True" by code_simp
  then obtain rd' where t: "try_parse ?rd = Inr (True, rd')"
    by (auto simp: returned_def split: sum.splits)
  then have r: "read_row ?rd = Inr (True, rd')" by (simp add: read_row_def)
  have c: "count (row rd') \<le> cells_capacity"
    using C5_count_stays_within_capacity[of ?rd True rd'] r by blast
  have "(case try_parse ?rd of Inr (b, x) \<Rightarrow> count (row x) | Inl f \<Rightarrow> 0) = 2" by code_simp
  then have n: "count (row rd') = 2" using t by simp
  have h: "?fs \<noteq> [] \<and> list_all plain_field ?fs \<and>
    holds_at (StreamCursor_mem (stream_R ?rd)) (p_R ?rd) (join_comma ?fs @ [LF]) \<and>
    p_R ?rd + length (join_comma ?fs) < endp_R ?rd \<and> length ?fs \<le> cells_capacity"
    by code_simp
  then have "returned (read_row ?rd) = Inr True"
    using C5_count_stays_within_capacity[of ?rd True rd' ?fs] by blast
  with t r c n h show ?thesis by blast
qed

subsection \<open>C6: a row that ends in CR LF\<close>

text \<open>
  Claim C6: for the input \<open>a,b CR LF\<close>, \<^verbatim>\<open>read_row\<close> succeeds and produces exactly
  two cells, \<open>a\<close> and \<open>b\<close>, neither with a trailing CR.

  The code produces three cells: CR closes the cell \<open>b\<close> as a comma would, and the LF
  behind it then closes one more, empty cell.
\<close>

theorem C6_crlf_row_gives_three_cells:
  "outcome (read_row (fd_reader [''a,b'' @ [CR, LF]])) = Inr (True, [''a'', ''b'', '''']) \<and>
   outcome (read_row (mapped_reader (''a,b'' @ [CR, LF]))) = Inr (True, [''a'', ''b'', ''''])"
  by code_simp

subsection \<open>C7: doubled quotes in a quoted field\<close>

text \<open>
  Claim C7: for the quoted row \<open>"he said ""hi""" LF\<close>, \<^verbatim>\<open>read_row\<close> produces a single
  cell whose bytes are \<open>he said ""hi""\<close>; inside a quoted field a quote followed by a
  byte other than comma or LF stays in the cell, and the scan goes on in the same field
  (same start, same slot, no cell written), so a doubled quote is never unescaped.

  The first part holds for every row that is one quoted field whose content is made of
  pieces without quote and NUL byte with a doubled quote between them, when the row lies
  in the window: the cell is the content as it stands between the outer quotes. The row
  of the claim is the one with the pieces \<open>he said \<close>, \<open>hi\<close> and the empty piece;
  read from a descriptor, through the first refill, it gives the same cell.
\<close>

theorem C7_doubled_quotes_stay_in_the_cell:
  assumes "segs \<noteq> []" "list_all quote_free segs"
    "holds_at (StreamCursor_mem (stream_R rd)) (p_R rd) (quote # join_quotes segs @ [quote, LF])"
    "p_R rd + length (join_quotes segs) + 2 < endp_R rd"
  shows "(\<exists>rd'. read_row rd = Inr (True, rd') \<and> count (row rd') = 1 \<and>
            cell_strs rd' = [join_quotes segs] \<and>
            p_R rd' = p_R rd + length (join_quotes segs) + 3) \<and>
         (p < e \<and> m p \<noteq> comma \<and> m p \<noteq> LF \<longrightarrow>
            parse_from m e in_escape_or_end_of_cell p cs cell r =
            parse_from m e in_quoted_cell (p + 1) cs cell r) \<and>
         outcome (read_row (fd_reader
            [quote # ''he said '' @ [quote, quote] @ ''hi'' @ [quote, quote, quote, LF]])) =
           Inr (True, [''he said '' @ [quote, quote] @ ''hi'' @ [quote, quote]])"
proof (intro conjI impI)
  obtain rd' where "try_parse rd = Inr (True, rd')" "count (row rd') = 1"
    "cell_strs rd' = [join_quotes segs]" "p_R rd' = p_R rd + length (join_quotes segs) + 3"
    using try_parse_quoted_row[OF assms] by blast
  then show "\<exists>rd'. read_row rd = Inr (True, rd') \<and> count (row rd') = 1 \<and>
            cell_strs rd' = [join_quotes segs] \<and>
            p_R rd' = p_R rd + length (join_quotes segs) + 3"
    using read_row_of_try_parse by blast
next
  assume "p < e \<and> m p \<noteq> comma \<and> m p \<noteq> LF"
  then show "parse_from m e in_escape_or_end_of_cell p cs cell r =
      parse_from m e in_quoted_cell (p + 1) cs cell r"
    unfolding parse_from.simps(4)[of m e p cs cell r] by simp
next
  show "outcome (read_row (fd_reader
      [quote # ''he said '' @ [quote, quote] @ ''hi'' @ [quote, quote, quote, LF]])) =
     Inr (True, [''he said '' @ [quote, quote] @ ''hi'' @ [quote, quote]])"
    by code_simp
qed

theorem C7_doubled_quotes_witness:
  "[''he said '', ''hi'', ''''] \<noteq> [] \<and> list_all quote_free [''he said '', ''hi'', ''''] \<and>
   holds_at
     (StreamCursor_mem (stream_R (mapped_reader
        (quote # ''he said '' @ [quote, quote] @ ''hi'' @ [quote, quote, quote, LF]))))
     (p_R (mapped_reader
        (quote # ''he said '' @ [quote, quote] @ ''hi'' @ [quote, quote, quote, LF])))
     (quote # join_quotes [''he said '', ''hi'', ''''] @ [quote, LF]) \<and>
   p_R (mapped_reader (quote # ''he said '' @ [quote, quote] @ ''hi'' @ [quote, quote, quote, LF]))
      + length (join_quotes [''he said '', ''hi'', '''']) + 2
     < endp_R (mapped_reader
        (quote # ''he said '' @ [quote, quote] @ ''hi'' @ [quote, quote, quote, LF])) \<and>
   (\<exists>rd'. read_row (mapped_reader
             (quote # ''he said '' @ [quote, quote] @ ''hi'' @ [quote, quote, quote, LF])) =
           Inr (True, rd') \<and>
         count (row rd') = 1 \<and>
         cell_strs rd' = [''he said '' @ [quote, quote] @ ''hi'' @ [quote, quote]] \<and>
         p_R rd' = 17) \<and>
   (10::nat) < 17 \<and>
   mem_of_list (quote # ''he said '' @ [quote, quote] @ ''hi'' @ [quote, quote, quote, LF]) 10 = quote \<and>
   parse_from (mem_of_list (quote # ''he said '' @ [quote, quote] @ ''hi'' @ [quote, quote, quote, LF])) 17
     in_escape_or_end_of_cell 10 1 0 CsvCursor_new =
   parse_from (mem_of_list (quote # ''he said '' @ [quote, quote] @ ''hi'' @ [quote, quote, quote, LF])) 17
     in_quoted_cell (10 + 1) 1 0 CsvCursor_new"
proof -
  let ?bs = "quote # ''he said '' @ [quote, quote] @ ''hi'' @ [quote, quote, quote, LF]"
  let ?rd = "mapped_reader ?bs"
  let ?segs = "[''he said '', ''hi'', '''']"
  let ?m = "mem_of_list ?bs"
  have h1: "?segs \<noteq> []" by simp
  have h2: "list_all quote_free ?segs" by code_simp
  have h3: "holds_at (StreamCursor_mem (stream_R ?rd)) (p_R ?rd) (quote # join_quotes ?segs @ [quote, LF])"
    by code_simp
  have h4: "p_R ?rd + length (join_quotes ?segs) + 2 < endp_R ?rd" by code_simp
  have j: "join_quotes ?segs = ''he said '' @ [quote, quote] @ ''hi'' @ [quote, quote]" by simp
  have p0: "p_R ?rd = 0" by code_simp
  have q: "?m 10 = quote" by code_simp
  have h5: "(10::nat) < 17 \<and> ?m 10 \<noteq> comma \<and> ?m 10 \<noteq> LF"
    unfolding q by simp
  note t = C7_doubled_quotes_stay_in_the_cell[OF h1 h2 h3 h4, of 10 17 ?m 1 0 CsvCursor_new]
  from t obtain rd' where rd': "read_row ?rd = Inr (True, rd')" "count (row rd') = 1"
    "cell_strs rd' = [join_quotes ?segs]" "p_R rd' = p_R ?rd + length (join_quotes ?segs) + 3"
    by blast
  have a: "\<exists>rd'. read_row ?rd = Inr (True, rd') \<and> count (row rd') = 1 \<and>
         cell_strs rd' = [''he said '' @ [quote, quote] @ ''hi'' @ [quote, quote]] \<and> p_R rd' = 17"
    using rd' p0 unfolding j by (intro exI[of _ rd']) simp
  have b: "parse_from ?m 17 in_escape_or_end_of_cell 10 1 0 CsvCursor_new =
           parse_from ?m 17 in_quoted_cell (10 + 1) 1 0 CsvCursor_new"
    using t h5 by blast
  have c: "(10::nat) < 17" by simp
  show ?thesis
    by (intro conjI h1 h2 h3 h4 a c q b)
qed

subsection \<open>C8: what a scan returns\<close>

text \<open>
  Claim C8, as stated: the scan returns the number of leading bytes from the pointer on
  that are not in the stop set; it returns 0 exactly when the byte at the pointer is in
  the stop set, and the full chunk width (16 vectorised, 4 in the portable fallback) when
  no stop byte occurs in the chunk.

  The vectorised scan stops looking at the first NUL byte of the chunk: on \<open>a NUL , b LF\<close>
  two leading bytes are not in the stop set and the scan returns 16. The portable scan
  has no chunk: on \<open>abcdefgh,\<close> the first four bytes hold no stop byte and it returns 8.
\<close>

theorem C8_nul_byte_counterexample:
  "strcspn16 (mem_of_list [CHR ''a'', NUL, comma, CHR ''b'', LF]) 0 [comma, CR, LF] = 16 \<and>
   leading_non_stop (mem_of_list [CHR ''a'', NUL, comma, CHR ''b'', LF]) 0 [comma, CR, LF] 16 = 2 \<and>
   (case FallbackStringSpanner [comma, CR, LF] False of
      Inr t \<Rightarrow> FallbackStringSpanner_call t (mem_of_list ''abcdefgh,'') 0 = Some 8
    | Inl f \<Rightarrow> False) \<and>
   leading_non_stop (mem_of_list ''abcdefgh,'') 0 [comma, CR, LF] 4 = 4"
  by code_simp

text \<open>
  Claim C8, amended: for a stop set of at most 16 bytes without NUL, the vectorised scan
  (\<^verbatim>\<open>strcspn16\<close>, and \<^verbatim>\<open>StringSpanner\<close> alike) returns the number of leading bytes of
  the 16-byte chunk that are not in the stop set when no NUL byte is among them, and 16
  when a NUL byte is among them; so it returns 16 when the chunk has no stop byte, and 0
  exactly when the byte at the pointer is in the stop set. The portable scan, built with
  \<^verbatim>\<open>c = false\<close>, returns the number of leading bytes that are neither in the stop set
  nor NUL when such a byte lies within the first four bytes.
\<close>

theorem C8_scan_returns_leading_count_up_to_a_nul:
  assumes "NUL \<notin> set stops" "length stops \<le> 16"
  shows "strcspn16 m p stops =
           (if NUL \<in> set (bytes_at m p (leading_non_stop m p stops 16)) then 16
            else leading_non_stop m p stops 16) \<and>
         (strcspn16 m p stops = 0 \<longleftrightarrow> m p \<in> set stops) \<and>
         (leading_non_stop m p stops 16 = 16 \<longrightarrow> strcspn16 m p stops = 16) \<and>
         StringSpanner_call (StringSpanner_new stops) m p = strcspn16 m p stops \<and>
         (FallbackStringSpanner stops False = Inr t \<and> leading_non_stop m p (NUL # stops) 4 < 4 \<longrightarrow>
            FallbackStringSpanner_call t m p = Some (leading_non_stop m p (NUL # stops) 4))"
proof -
  have "leading_non_stop m p stops 16 = 16 \<longrightarrow> strcspn16 m p stops = 16"
    using strcspn16_leading[OF assms, of m p] by simp
  then show ?thesis
    using strcspn16_leading[OF assms] strcspn16_zero_iff[OF assms]
      StringSpanner_is_strcspn16[OF assms] fallback_leading[OF _ assms(1), of t m p 4]
    by blast
qed

theorem C8_scan_witness:
  "NUL \<notin> set [comma, CR, LF] \<and> length [comma, CR, LF] \<le> 16 \<and>
   strcspn16 (mem_of_list (''abc,defgh'' @ [LF])) 0 [comma, CR, LF] = 3 \<and>
   leading_non_stop (mem_of_list (''abc,defgh'' @ [LF])) 0 [comma, CR, LF] 16 = 3 \<and>
   (\<exists>t. FallbackStringSpanner [comma, CR, LF] False = Inr t \<and>
        leading_non_stop (mem_of_list (''abc,defgh'' @ [LF])) 0 (NUL # [comma, CR, LF]) 4 < 4 \<and>
        FallbackStringSpanner_call t (mem_of_list (''abc,defgh'' @ [LF])) 0 = Some 3)"
proof -
  let ?m = "mem_of_list (''abc,defgh'' @ [LF])"
  let ?S = "[comma, CR, LF]"
  have h1: "NUL \<notin> set ?S" by simp
  have h2: "length ?S \<le> 16" by simp
  have l: "leading_non_stop ?m 0 ?S 16 = 3" by code_simp
  have nn: "NUL \<notin> set (bytes_at ?m 0 3)" by code_simp
  have l4: "leading_non_stop ?m 0 (NUL # ?S) 4 = 3" by code_simp
  obtain t where t: "FallbackStringSpanner ?S False = Inr t"
  proof -
    have "case FallbackStringSpanner ?S False of Inr t \<Rightarrow> True | Inl f \<Rightarrow> False" by code_simp
    then show ?thesis using that by (auto split: sum.splits)
  qed
  note c8 = C8_scan_returns_leading_count_up_to_a_nul[OF h1 h2, of ?m 0 t]
  have "strcspn16 ?m 0 ?S = 3" using c8 l nn by simp
  moreover have "FallbackStringSpanner_call t ?m 0 = Some 3" using c8 t l4 by simp
  ultimately show ?thesis using h1 h2 l l4 t by auto
qed

subsection \<open>C9: the committed position\<close>

text \<open>
  Claim C9, as stated: a failed parse attempt leaves the committed position (\<^verbatim>\<open>p_\<close>)
  unchanged; the committed position advances only on a fully successful row parse; and
  at all times the committed position is at most the end (\<^verbatim>\<open>endp_\<close>).

  The first part holds of \<^verbatim>\<open>try_parse\<close>, which works on a local copy of \<^verbatim>\<open>p_\<close>. It does
  not hold of \<^verbatim>\<open>read_row\<close>, whose \<^verbatim>\<open>refill\<close> assigns \<^verbatim>\<open>p_\<close> between the two attempts: on
  the mapped file \<open>a,b LF ccccc\<close> the first \<^verbatim>\<open>read_row\<close> commits position 4, behind the
  LF; the second finds no end of row, its \<^verbatim>\<open>refill\<close> passes the shift 9 - (9 - 4) = 4 and
  the mapped \<^verbatim>\<open>more\<close> moves the window to offset 5, and \<^verbatim>\<open>read_row\<close> returns false with
  the committed position at 5: it advanced over the byte at offset 4 with no row parsed.
  Nor does the bound hold at all times: on 256 commas and LF the 257th cell is stored at
  \<^verbatim>\<open>cells[256]\<close>, outside the array, where the members \<^verbatim>\<open>count\<close> and \<^verbatim>\<open>endp_\<close> of the
  reader follow it, and nothing is known of \<^verbatim>\<open>endp_\<close> afterwards.
\<close>

theorem C9_failed_read_row_counterexample:
  "(case read_row (mapped_reader (''a,b'' @ [LF] @ ''ccccc'')) of
      Inr (True, rd1) \<Rightarrow>
        p_R rd1 = 4 \<and> endp_R rd1 = 9 \<and>
        returned (try_parse rd1) = Inr False \<and>
        (case read_row rd1 of
           Inr (False, rd2) \<Rightarrow> p_R rd2 = 5 \<and> endp_R rd2 = 9
         | _ \<Rightarrow> False)
    | _ \<Rightarrow> False) \<and>
   returned (read_row (mapped_reader (replicate 256 comma @ [LF]))) = Inl CellWriteOutOfBounds"
proof (rule conjI)
  show "(case read_row (mapped_reader (''a,b'' @ [LF] @ ''ccccc'')) of
      Inr (True, rd1) \<Rightarrow>
        p_R rd1 = 4 \<and> endp_R rd1 = 9 \<and>
        returned (try_parse rd1) = Inr False \<and>
        (case read_row rd1 of
           Inr (False, rd2) \<Rightarrow> p_R rd2 = 5 \<and> endp_R rd2 = 9
         | _ \<Rightarrow> False)
    | _ \<Rightarrow> False)"
    by code_simp
  show "returned (read_row (mapped_reader (replicate 256 comma @ [LF]))) = Inl CellWriteOutOfBounds"
    using try_parse_row_of_257_fields by (simp add: read_row_def returned_def)
qed

text \<open>
  Claim C9, amended: a failed \<^verbatim>\<open>try_parse\<close> leaves the committed position, the end and
  the cursor unchanged, and a successful \<^verbatim>\<open>try_parse\<close> advances the committed position
  and leaves it at most the end. This is claimed of \<^verbatim>\<open>try_parse\<close> alone: \<^verbatim>\<open>refill\<close>, and so
  a failed \<^verbatim>\<open>read_row\<close>, assigns both positions from the new window, and where the
  committed position lands is not claimed. The committed position is at most the end
  after the constructor, after every \<^verbatim>\<open>refill\<close> that returns, and after every
  \<^verbatim>\<open>try_parse\<close> and \<^verbatim>\<open>read_row\<close> that starts with it at most the end and whose cell
  stores all stayed inside the array; nothing is claimed after a store outside the
  array. From a reader whose window is the window of its cursor \<^verbatim>\<open>refill\<close> always
  returns.
\<close>

theorem C9_committed_position_moves_only_on_success:
  "(try_parse rd = Inr (False, rd') \<longrightarrow>
      p_R rd' = p_R rd \<and> endp_R rd' = endp_R rd \<and> stream_R rd' = stream_R rd) \<and>
   (try_parse rd = Inr (True, rd') \<longrightarrow>
      p_R rd < p_R rd' \<and> p_R rd' \<le> endp_R rd' \<and> endp_R rd' = endp_R rd \<and>
      stream_R rd' = stream_R rd) \<and>
   p_R (CsvReader_new s) \<le> endp_R (CsvReader_new s) \<and>
   (refill rd = Inr (b, rd') \<longrightarrow> p_R rd' \<le> endp_R rd') \<and>
   (p_R rd \<le> endp_R rd \<and> try_parse rd = Inr (b, rd') \<longrightarrow> p_R rd' \<le> endp_R rd') \<and>
   (p_R rd \<le> endp_R rd \<and> read_row rd = Inr (b, rd') \<longrightarrow> p_R rd' \<le> endp_R rd') \<and>
   (window_ok rd \<longrightarrow> (\<exists>b2 rd2. refill rd = Inr (b2, rd2)))"
proof -
  have "p_R (CsvReader_new s) \<le> endp_R (CsvReader_new s)"
    by (simp add: CsvReader_new_def)
  then show ?thesis
    using try_parse_False[of rd rd'] try_parse_True[of rd rd'] refill_window[of rd b rd']
      try_parse_inv[of rd b rd'] read_row_inv[of rd b rd'] refill_no_fault[of rd]
    by blast
qed

theorem C9_committed_position_witness:
  "(\<exists>rd'. try_parse (fd_reader [''a,b'' @ [LF] @ ''c'']) = Inr (False, rd') \<and>
      p_R rd' = p_R (fd_reader [''a,b'' @ [LF] @ ''c'']) \<and>
      (\<exists>rd1. refill rd' = Inr (True, rd1) \<and> p_R rd1 \<le> endp_R rd1 \<and> endp_R rd1 = 5 \<and>
        (\<exists>rd2. try_parse rd1 = Inr (True, rd2) \<and> p_R rd1 < p_R rd2 \<and> p_R rd2 = 4 \<and>
           p_R rd2 \<le> endp_R rd2 \<and>
           (\<exists>rd3. try_parse rd2 = Inr (False, rd3) \<and> p_R rd3 = p_R rd2 \<and> endp_R rd3 = endp_R rd2)))) \<and>
   (\<exists>rd4. read_row (fd_reader [''a,b'' @ [LF] @ ''c'']) = Inr (True, rd4) \<and>
      p_R (fd_reader [''a,b'' @ [LF] @ ''c'']) \<le> endp_R (fd_reader [''a,b'' @ [LF] @ ''c'']) \<and>
      p_R rd4 \<le> endp_R rd4) \<and>
   window_ok (fd_reader [''a,b'' @ [LF] @ ''c'']) \<and>
   (\<exists>b2 rd2. refill (fd_reader [''a,b'' @ [LF] @ ''c'']) = Inr (b2, rd2))"
proof -
  let ?rd = "fd_reader [''a,b'' @ [LF] @ ''c'']"
  define rd0 where "rd0 = snd (projr (try_parse ?rd))"
  define rd1 where "rd1 = snd (projr (refill rd0))"
  define rd2 where "rd2 = snd (projr (try_parse rd1))"
  define rd3 where "rd3 = snd (projr (try_parse rd2))"
  have pick: "res = Inr (b, snd (projr res))" if "returned res = Inr b" for res b
    using that by (cases res) (auto simp: returned_def)
  have "returned (try_parse ?rd) = Inr False" by code_simp
  then have t0: "try_parse ?rd = Inr (False, rd0)"
    unfolding rd0_def by (rule pick)
  have "returned (refill (snd (projr (try_parse ?rd)))) = Inr True" by code_simp
  then have f1: "refill rd0 = Inr (True, rd1)"
    unfolding rd1_def rd0_def by (rule pick)
  have e1: "endp_R rd1 = 5"
    unfolding rd1_def rd0_def by code_simp
  have "returned (try_parse (snd (projr (refill (snd (projr (try_parse ?rd))))))) = Inr True"
    by code_simp
  then have t2: "try_parse rd1 = Inr (True, rd2)"
    unfolding rd2_def rd1_def rd0_def by (rule pick)
  have p2: "p_R rd2 = 4"
    unfolding rd2_def rd1_def rd0_def by code_simp
  have "returned (try_parse (snd (projr (try_parse (snd (projr (refill (snd (projr (try_parse ?rd))))))))))
          = Inr False"
    by code_simp
  then have t3: "try_parse rd2 = Inr (False, rd3)"
    unfolding rd3_def rd2_def rd1_def rd0_def by (rule pick)
  have rr: "read_row ?rd = Inr (True, rd2)"
    using t0 f1 t2 by (simp add: read_row_def)
  have a0: "p_R rd0 = p_R ?rd"
    using C9_committed_position_moves_only_on_success[of ?rd rd0] t0 by blast
  have a1: "p_R rd1 \<le> endp_R rd1"
    using C9_committed_position_moves_only_on_success[of rd0 rd1 _ True] f1 by blast
  have a2: "p_R rd1 < p_R rd2 \<and> p_R rd2 \<le> endp_R rd2"
    using C9_committed_position_moves_only_on_success[of rd1 rd2] t2 by blast
  have a3: "p_R rd3 = p_R rd2 \<and> endp_R rd3 = endp_R rd2"
    using C9_committed_position_moves_only_on_success[of rd2 rd3] t3 by blast
  have i0: "p_R ?rd \<le> endp_R ?rd"
    using C9_committed_position_moves_only_on_success[of ?rd rd0
        "Fd (FdStreamCursor_new [Data (''a,b'' @ [LF] @ ''c'')])"]
    by (simp add: fd_reader_def)
  have a4: "p_R rd2 \<le> endp_R rd2"
    using C9_committed_position_moves_only_on_success[of ?rd rd2 _ True] rr i0 by blast
  have inner3: "\<exists>rd3. try_parse rd2 = Inr (False, rd3) \<and> p_R rd3 = p_R rd2 \<and> endp_R rd3 = endp_R rd2"
    using t3 a3 by blast
  have inner2: "\<exists>rd2. try_parse rd1 = Inr (True, rd2) \<and> p_R rd1 < p_R rd2 \<and> p_R rd2 = 4 \<and>
           p_R rd2 \<le> endp_R rd2 \<and>
           (\<exists>rd3. try_parse rd2 = Inr (False, rd3) \<and> p_R rd3 = p_R rd2 \<and> endp_R rd3 = endp_R rd2)"
    using t2 a2 p2 inner3 by blast
  have inner1: "\<exists>rd1. refill rd0 = Inr (True, rd1) \<and> p_R rd1 \<le> endp_R rd1 \<and> endp_R rd1 = 5 \<and>
        (\<exists>rd2. try_parse rd1 = Inr (True, rd2) \<and> p_R rd1 < p_R rd2 \<and> p_R rd2 = 4 \<and>
           p_R rd2 \<le> endp_R rd2 \<and>
           (\<exists>rd3. try_parse rd2 = Inr (False, rd3) \<and> p_R rd3 = p_R rd2 \<and> endp_R rd3 = endp_R rd2))"
    using f1 a1 e1 inner2 by blast
  have part1: "\<exists>rd'. try_parse ?rd = Inr (False, rd') \<and> p_R rd' = p_R ?rd \<and>
      (\<exists>rd1. refill rd' = Inr (True, rd1) \<and> p_R rd1 \<le> endp_R rd1 \<and> endp_R rd1 = 5 \<and>
        (\<exists>rd2. try_parse rd1 = Inr (True, rd2) \<and> p_R rd1 < p_R rd2 \<and> p_R rd2 = 4 \<and>
           p_R rd2 \<le> endp_R rd2 \<and>
           (\<exists>rd3. try_parse rd2 = Inr (False, rd3) \<and> p_R rd3 = p_R rd2 \<and> endp_R rd3 = endp_R rd2)))"
    using t0 a0 inner1 by blast
  have part2: "\<exists>rd4. read_row ?rd = Inr (True, rd4) \<and> p_R ?rd \<le> endp_R ?rd \<and> p_R rd4 \<le> endp_R rd4"
    using rr i0 a4 by blast
  have w0: "window_ok ?rd"
    unfolding fd_reader_def by (rule window_ok_new)
  have part3: "\<exists>b2 rd2. refill ?rd = Inr (b2, rd2)"
    using C9_committed_position_moves_only_on_success[of ?rd rd0] w0 by blast
  show ?thesis by (intro conjI part1 part2 w0 part3)
qed

subsection \<open>C10: comparing a cell with a string\<close>

text \<open>
  Claim C10, as stated: \<^verbatim>\<open>equals\<close> compares the first \<^verbatim>\<open>size\<close> bytes of the cell with
  the argument, so it is true when the argument equals the cell's bytes and when the
  cell's bytes are a strict prefix of the argument, and false when the argument is
  shorter than the cell.

  The last part fails for a cell with a NUL byte: \<^verbatim>\<open>strncmp\<close> stops behind a NUL that
  both strings share. The cell \<open>a NUL b\<close> equals the shorter argument \<open>a\<close>.
\<close>

theorem C10_cell_with_nul_counterexample:
  "length ''a'' < size_c \<lparr>ptr = 0, size_c = 3\<rparr> \<and>
   as_str (mem_of_list [CHR ''a'', NUL, CHR ''b'']) \<lparr>ptr = 0, size_c = 3\<rparr> = [CHR ''a'', NUL, CHR ''b''] \<and>
   equals (mem_of_list [CHR ''a'', NUL, CHR ''b'']) \<lparr>ptr = 0, size_c = 3\<rparr> (c_str ''a'')"
  by code_simp

text \<open>
  Claim C10, amended: for every cell and every NUL-terminated argument, \<^verbatim>\<open>equals\<close> is
  true exactly when the cell's bytes are a prefix of the argument (equal to it, or a
  strict prefix), or the argument is shorter than the cell, equal to the cell's bytes
  before it ends, and the cell's next byte is NUL. For a cell without NUL byte it is true
  exactly when the cell's bytes are a prefix of the argument, and so false when the
  argument is shorter than the cell.
\<close>

theorem C10_equals_compares_the_first_size_bytes:
  assumes "NUL \<notin> set s"
  shows "(equals m c (c_str s) \<longleftrightarrow>
            prefix (as_str m c) s \<or>
            (length s < size_c c \<and> take (length s) (as_str m c) = s \<and>
             as_str m c ! length s = NUL)) \<and>
         (NUL \<notin> set (as_str m c) \<longrightarrow> (equals m c (c_str s) \<longleftrightarrow> prefix (as_str m c) s))"
proof -
  have main: "equals m c (c_str s) \<longleftrightarrow>
            prefix (as_str m c) s \<or>
            (length s < size_c c \<and> take (length s) (as_str m c) = s \<and>
             as_str m c ! length s = NUL)"
    by (rule equals_iff[OF assms])
  have "\<not> (length s < size_c c \<and> as_str m c ! length s = NUL)" if "NUL \<notin> set (as_str m c)"
  proof
    assume h: "length s < size_c c \<and> as_str m c ! length s = NUL"
    then have "length s < length (as_str m c)" by (simp add: as_str_def)
    then have "as_str m c ! length s \<in> set (as_str m c)" by (rule nth_mem)
    then show False using h that by simp
  qed
  then show ?thesis using main by blast
qed

theorem C10_equals_witness:
  "NUL \<notin> set ''abc'' \<and> NUL \<notin> set (as_str (mem_of_list ''ab'') \<lparr>ptr = 0, size_c = 2\<rparr>) \<and>
   prefix (as_str (mem_of_list ''ab'') \<lparr>ptr = 0, size_c = 2\<rparr>) ''abc'' \<and>
   equals (mem_of_list ''ab'') \<lparr>ptr = 0, size_c = 2\<rparr> (c_str ''abc'')"
proof -
  let ?m = "mem_of_list ''ab''"
  let ?c = "\<lparr>ptr = 0, size_c = 2\<rparr>"
  have h: "NUL \<notin> set ''abc''" by simp
  have b: "as_str ?m ?c = ''ab''" by code_simp
  have n: "NUL \<notin> set (as_str ?m ?c)" unfolding b by simp
  have p: "prefix (as_str ?m ?c) ''abc''" unfolding b by simp
  have "equals ?m ?c (c_str ''abc'')"
    using C10_equals_compares_the_first_size_bytes[OF h, of ?m ?c] p by blast
  with h n p show ?thesis by blast
qed

end
